theory Spec2Isabelle
  imports Main "HOL-Library.Word" "HOL-Library.Sublist" "HOL-Library.Char_ord"
    "HOL-Library.List_Lexorder" "HOL-Library.Multiset"
begin

section \<open>Greenmask: the SQL fragment builder and the subset planner's CTE query\<close>

text \<open>
  Go strings are byte strings: \<^typ>\<open>string\<close> (a list of 8-bit characters) with
  \<^const>\<open>length\<close> for \<open>len\<close>.  \<open>fmt.Sprintf\<close> with \<open>%s\<close> verbs is
  concatenation.  A panic of the Go runtime or of the code is a value of \<open>panic\<close>.
\<close>

datatype panic =
  Panic string
  | IndexOutOfRange

text \<open>The double quote character, for the quoted identifiers of the generated SQL.\<close>

definition dq :: string where
  "dq = [CHR 0x22]"

text \<open>\<open>strings.Join(elems, sep)\<close>.\<close>

fun strings_Join :: "string list \<Rightarrow> string \<Rightarrow> string" where
  "strings_Join [] sep = []"
| "strings_Join [x] sep = x"
| "strings_Join (x # y # ys) sep = x @ sep @ strings_Join (y # ys) sep"

subsection \<open>\<open>generateWhereClause\<close>\<close>

definition generateWhereClause :: "string list \<Rightarrow> string" where
  "generateWhereClause subsetConds =
     (if length subsetConds = 0 then ''WHERE TRUE''
      else
        let escapedConds = map (\<lambda>cond. ''( '' @ cond @ '' )'') subsetConds
        in ''WHERE '' @ strings_Join escapedConds '' AND '')"

subsection \<open>\<open>shorten\<close>\<close>

text \<open>
  \<open>crypto/sha1\<close> is Go's standard library: \<open>sha1.Sum\<close> is a parameter of the
  model.  Its result type \<open>[20]byte\<close> is a 160-bit value; \<open>digest_bytes\<close> lists its
  twenty bytes, first byte first.  The verb \<open>%x\<close> on a byte slice prints two lower-case
  hexadecimal digits per byte.
\<close>

type_synonym sha1_sum = "string \<Rightarrow> 160 word"

definition digest_bytes :: "160 word \<Rightarrow> 8 word list" where
  "digest_bytes h = map (\<lambda>i. ucast (drop_bit (8 * (19 - i)) h)) [0..<20]"

definition hex_digit :: "nat \<Rightarrow> char" where
  "hex_digit n = ''0123456789abcdef'' ! (n mod 16)"

definition hex_byte :: "8 word \<Rightarrow> string" where
  "hex_byte b = [hex_digit (unat b div 16), hex_digit (unat b mod 16)]"

definition hex_bytes :: "8 word list \<Rightarrow> string" where
  "hex_bytes bs = concat (map hex_byte bs)"

definition maxLen :: nat where
  "maxLen = 63"

definition shorten :: "sha1_sum \<Rightarrow> string \<Rightarrow> string" where
  "shorten sha1_Sum name =
     (if length name \<le> maxLen then name
      else
        let h = digest_bytes (sha1_Sum name);
            prefixLen = (if 40 > maxLen - 11 then maxLen - 11 else 40)
        in take prefixLen name @ ''_'' @ hex_bytes (take 5 h))"

subsection \<open>Tables, edges, components\<close>

text \<open>
  The fields of \<open>toolkit.Column\<close>, \<open>toolkit.Table\<close> and \<open>entries.Table\<close> that the
  modelled functions read or write.  \<open>toolkit.Oid\<close> is a 32-bit unsigned integer.
\<close>

record column =
  col_Name :: string
  col_TypeName :: string
  col_CanonicalTypeName :: string
  col_OverriddenTypeName :: string
  col_IsGenerated :: bool

record table =
  t_Schema :: string
  t_Name :: string
  t_Oid :: "32 word"
  t_Columns :: "column list"
  t_PrimaryKey :: "string list"
  t_RelKind :: char
  t_RootPtSchema :: string
  t_RootPtName :: string
  t_RootPtOid :: "32 word"

text \<open>
  An edge end (\<open>TableLink\<close>) carries its table and the names of its keys; an edge
  (\<open>Edge\<close>) has an id and two ends.  A component of the graph (\<open>Component\<close>) carries its
  cycles, each a list of edges, and the grouping of the cycles, of which the query
  generator reads the number of groups only.
\<close>

record tableLink =
  tl_table :: table
  tl_keys :: "string list"

record edge =
  e_id :: int
  e_from :: tableLink
  e_to :: tableLink

record component =
  cycles :: "edge list list"
  groupedCycles :: "nat list list"

subsection \<open>\<open>generateSelectAllColumns\<close>\<close>

definition quoted3 :: "string \<Rightarrow> string \<Rightarrow> string \<Rightarrow> string" where
  "quoted3 s n k = dq @ s @ dq @ ''.'' @ dq @ n @ dq @ ''.'' @ dq @ k @ dq"

definition generateSelectAllColumns :: "table \<Rightarrow> string" where
  "generateSelectAllColumns t =
     (let cols = map (\<lambda>c. quoted3 (t_Schema t) (t_Name t) (col_Name c))
                   (filter (\<lambda>c. \<not> col_IsGenerated c) (t_Columns t))
      in ''SELECT '' @ strings_Join cols '', '')"

subsection \<open>\<open>cteQuery\<close>\<close>

record cteItem =
  it_name :: string
  it_query :: string

record cteQuery =
  cq_items :: "cteItem list"
  cq_c :: component
  cq_names :: "string \<Rightarrow> bool"

definition newCteQuery :: "component \<Rightarrow> cteQuery" where
  "newCteQuery c = \<lparr>cq_items = [], cq_c = c, cq_names = (\<lambda>_. False)\<rparr>"

definition addItem :: "cteQuery \<Rightarrow> string \<Rightarrow> string \<Rightarrow> cteQuery" where
  "addItem c name query =
     (if cq_names c name then c
      else c\<lparr>cq_items := cq_items c @ [\<lparr>it_name = name, it_query = query\<rparr>],
             cq_names := (cq_names c)(name := True)\<rparr>)"

definition idsName :: "table \<Rightarrow> string" where
  "idsName t = t_Schema t @ ''__'' @ t_Name t @ ''__ids''"

definition excludedCteQueries :: "edge list \<Rightarrow> table \<Rightarrow> string list" where
  "excludedCteQueries cycle targetTable =
     map (\<lambda>e. idsName (tl_table (e_from e)))
       (filter (\<lambda>e. t_Oid (tl_table (e_from e)) \<noteq> t_Oid targetTable) cycle)"

definition cteText :: "cteItem \<Rightarrow> string" where
  "cteText item = '' '' @ it_name item @ '' AS ('' @ it_query item @ '')''"

definition resultingQuery :: "table \<Rightarrow> string" where
  "resultingQuery targetTable =
     (let rightTableName = idsName targetTable;
          leftTableKeys = map (\<lambda>key. quoted3 (t_Schema targetTable) (t_Name targetTable) key)
                            (t_PrimaryKey targetTable);
          rightTableKeys = map (\<lambda>key. dq @ rightTableName @ dq @ ''.'' @ dq @ key @ dq)
                             (t_PrimaryKey targetTable);
          leftKeysCSV = strings_Join leftTableKeys '','';
          rightKeysCSV = strings_Join rightTableKeys '','';
          selectClause = generateSelectAllColumns targetTable
      in selectClause @ '' FROM '' @ dq @ t_Schema targetTable @ dq @ ''.'' @ dq
           @ t_Name targetTable @ dq @ '' WHERE ('' @ leftKeysCSV @ '') IN (SELECT ''
           @ rightKeysCSV @ '' FROM '' @ dq @ rightTableName @ dq @ '')'')"

definition generateQuery :: "cteQuery \<Rightarrow> table \<Rightarrow> panic + string" where
  "generateQuery c targetTable =
     (if length (groupedCycles (cq_c c)) > 1
      then Inl (Panic ''FIXME: found more than one grouped cycle'')
      else
        (case cycles (cq_c c) of
           [] \<Rightarrow> Inl IndexOutOfRange
         | cycle0 # _ \<Rightarrow>
             let excluded = excludedCteQueries cycle0 targetTable;
                 queries = map cteText
                             (filter (\<lambda>item. it_name item \<notin> set excluded) (cq_items c))
             in Inr (''WITH RECURSIVE '' @ strings_Join queries '','' @ '' ''
                       @ resultingQuery targetTable)))"

subsection \<open>\<open>buildWithClause\<close>\<close>

text \<open>
  The CTE definitions are a Go map from names to bodies: an association list whose keys
  are the map's keys.  A lookup of an absent key gives the empty string.
  \<open>strings.Contains(s, substr)\<close> is \<open>sublist substr s\<close>.
\<close>

type_synonym cteDefs = "(string \<times> string) list"

definition strings_Contains :: "string \<Rightarrow> string \<Rightarrow> bool" where
  "strings_Contains s substr = sublist substr s"

definition cteBody :: "cteDefs \<Rightarrow> string \<Rightarrow> string" where
  "cteBody cteDefs n = (case map_of cteDefs n of Some body \<Rightarrow> body | None \<Rightarrow> [])"

text \<open>
  The state of the sort: \<open>dependsOn\<close> (a map from names to sets of names, each set a list
  without repetition), \<open>inDegree\<close> (a map from names to integers, 0 where absent), the
  queue \<open>zero\<close> and the output \<open>ordered\<close>.
\<close>

record kahn =
  k_dependsOn :: "string \<Rightarrow> string list"
  k_inDegree :: "string \<Rightarrow> int"
  k_zero :: "string list"
  k_ordered :: "string list"

definition addDependency :: "string \<Rightarrow> string \<Rightarrow> kahn \<Rightarrow> kahn" where
  "addDependency n m st =
     (if m \<in> set (k_dependsOn st n) then st
      else st\<lparr>k_dependsOn := (k_dependsOn st)(n := k_dependsOn st n @ [m]),
              k_inDegree := (k_inDegree st)(n := k_inDegree st n + 1)\<rparr>)"

definition scanBody :: "cteDefs \<Rightarrow> string list \<Rightarrow> string \<Rightarrow> kahn \<Rightarrow> kahn" where
  "scanBody cteDefs names n st =
     fold (\<lambda>m st. if n = m then st
                   else if strings_Contains (cteBody cteDefs n) (dq @ m @ dq)
                        then addDependency n m st
                        else st)
          names st"

definition collectDependencies :: "cteDefs \<Rightarrow> string list \<Rightarrow> kahn" where
  "collectDependencies cteDefs names =
     fold (scanBody cteDefs names) names
       \<lparr>k_dependsOn = (\<lambda>_. []), k_inDegree = (\<lambda>_. 0), k_zero = [], k_ordered = []\<rparr>"

text \<open>
  The body of the loop \<open>for m := range dependsOn\<close>, for the name \<open>n\<close> just emitted.
  Go ranges over the keys of \<open>dependsOn\<close>, which are the names, in an unspecified order;
  the model ranges over them in sorted order, and \<open>fold_release_order\<close> below shows that
  the order does not change the result.
\<close>

definition release :: "string \<Rightarrow> string \<Rightarrow> kahn \<Rightarrow> kahn" where
  "release n m st =
     (if n \<in> set (k_dependsOn st m) then
        let st1 = st\<lparr>k_dependsOn := (k_dependsOn st)(m := removeAll n (k_dependsOn st m)),
                     k_inDegree := (k_inDegree st)(m := k_inDegree st m - 1)\<rparr>
        in if k_inDegree st1 m = 0 then st1\<lparr>k_zero := sort (k_zero st1 @ [m])\<rparr> else st1
      else st)"

definition kahnMeasure :: "string list \<Rightarrow> kahn \<Rightarrow> nat" where
  "kahnMeasure names st = length (k_zero st) + (\<Sum>m\<in>set names. length (k_dependsOn st m))"

lemma release_measure:
  assumes "m \<in> set names"
  shows "kahnMeasure names (release n m st) \<le> kahnMeasure names st"
proof (cases "n \<in> set (k_dependsOn st m)")
  case False
  then show ?thesis by (simp add: release_def)
next
  case True
  let ?d = "(k_dependsOn st)(m := removeAll n (k_dependsOn st m))"
  have lt: "length (removeAll n (k_dependsOn st m)) < length (k_dependsOn st m)"
    using True by (simp add: length_removeAll_less)
  have s1: "(\<Sum>x\<in>set names. length (?d x))
            = length (removeAll n (k_dependsOn st m)) + (\<Sum>x\<in>set names - {m}. length (?d x))"
    using assms by (subst sum.remove [of _ m]) simp_all
  have s2: "(\<Sum>x\<in>set names. length (k_dependsOn st x))
            = length (k_dependsOn st m) + (\<Sum>x\<in>set names - {m}. length (k_dependsOn st x))"
    using assms by (subst sum.remove [of _ m]) simp_all
  have s3: "(\<Sum>x\<in>set names - {m}. length (?d x)) = (\<Sum>x\<in>set names - {m}. length (k_dependsOn st x))"
    by (rule sum.cong) simp_all
  have "(\<Sum>x\<in>set names. length (?d x)) + 1 \<le> (\<Sum>x\<in>set names. length (k_dependsOn st x))"
    using lt s1 s2 s3 by linarith
  then show ?thesis using True
    by (simp add: release_def kahnMeasure_def Let_def)
qed

lemma fold_release_measure:
  "set ms \<subseteq> set names \<Longrightarrow> kahnMeasure names (fold (release n) ms st) \<le> kahnMeasure names st"
proof (induction ms arbitrary: st)
  case Nil
  show ?case by simp
next
  case (Cons m ms)
  have "kahnMeasure names (fold (release n) ms (release n m st)) \<le> kahnMeasure names (release n m st)"
    using Cons by simp
  also have "\<dots> \<le> kahnMeasure names st"
    using Cons.prems by (simp add: release_measure)
  finally show ?case by simp
qed

function kahnLoop :: "string list \<Rightarrow> kahn \<Rightarrow> kahn" where
  "kahnLoop names st =
     (case k_zero st of
        [] \<Rightarrow> st
      | n # rest \<Rightarrow>
          kahnLoop names
            (fold (release n) names (st\<lparr>k_zero := rest, k_ordered := k_ordered st @ [n]\<rparr>)))"
  by pat_completeness auto
termination
proof (relation "measure (\<lambda>(names, st). kahnMeasure names st)")
  show "wf (measure (\<lambda>(names, st). kahnMeasure names st))" by simp
next
  fix names :: "string list" and st :: kahn and n rest
  assume z: "k_zero st = n # rest"
  let ?st = "st\<lparr>k_zero := rest, k_ordered := k_ordered st @ [n]\<rparr>"
  have "kahnMeasure names (fold (release n) names ?st) \<le> kahnMeasure names ?st"
    by (rule fold_release_measure) simp
  also have "\<dots> < kahnMeasure names st"
    using z by (simp add: kahnMeasure_def)
  finally show "((names, fold (release n) names ?st), (names, st))
                  \<in> measure (\<lambda>(names, st). kahnMeasure names st)"
    by simp
qed

declare kahnLoop.simps [simp del]

definition withOrder :: "cteDefs \<Rightarrow> string list" where
  "withOrder cteDefs =
     (let names = sort (map fst cteDefs);
          st0 = collectDependencies cteDefs names;
          zero = sort (filter (\<lambda>n. k_inDegree st0 n = 0) names);
          st = kahnLoop names (st0\<lparr>k_zero := zero\<rparr>);
          ordered = k_ordered st
      in if length ordered \<noteq> length names then names else ordered)"

definition buildWithClause :: "cteDefs \<Rightarrow> string" where
  "buildWithClause cteDefs =
     (if length cteDefs = 0 then []
      else
        let parts = map (\<lambda>name. dq @ name @ dq @ '' AS ('' @ cteBody cteDefs name @ '')'')
                      (withOrder cteDefs)
        in ''WITH '' @ strings_Join parts '', '')"

text \<open>
  The dependency relation of the sort, as the code computes it: \<open>a\<close> depends on \<open>b\<close>
  when \<open>a\<close> and \<open>b\<close> are different names and the body of \<open>a\<close> contains \<open>b\<close> in
  double quotes.  \<open>cteRel\<close> is that relation on the names of the map, as pairs
  (dependency, dependent); \<open>cteDeps\<close> the dependencies of one name; \<open>kahnInit\<close> the
  state at the start of the loop; \<open>kahnInv\<close> the invariant of the loop.
\<close>

definition cteDependsOn :: "cteDefs \<Rightarrow> string \<Rightarrow> string \<Rightarrow> bool" where
  "cteDependsOn cteDefs a b = (a \<noteq> b \<and> strings_Contains (cteBody cteDefs a) (dq @ b @ dq))"

definition cteDeps :: "cteDefs \<Rightarrow> string list \<Rightarrow> string \<Rightarrow> string set" where
  "cteDeps cteDefs names a = {b \<in> set names. cteDependsOn cteDefs a b}"

definition kahnInv :: "cteDefs \<Rightarrow> string list \<Rightarrow> kahn \<Rightarrow> bool" where
  "kahnInv cteDefs names st \<longleftrightarrow>
     distinct (k_ordered st) \<and> set (k_ordered st) \<subseteq> set names \<and>
     (\<forall>m \<in> set names.
        set (k_dependsOn st m) = cteDeps cteDefs names m - set (k_ordered st) \<and>
        distinct (k_dependsOn st m) \<and>
        k_inDegree st m = int (length (k_dependsOn st m))) \<and>
     sorted (k_zero st) \<and> distinct (k_zero st) \<and>
     set (k_zero st) = {m \<in> set names. m \<notin> set (k_ordered st) \<and> k_dependsOn st m = []} \<and>
     (\<forall>i < length (k_ordered st).
        cteDeps cteDefs names (k_ordered st ! i) \<subseteq> set (take i (k_ordered st)) \<and>
        (\<forall>m \<in> set names - set (take i (k_ordered st)).
           cteDeps cteDefs names m \<subseteq> set (take i (k_ordered st)) \<longrightarrow> k_ordered st ! i \<le> m))"

definition cteRel :: "cteDefs \<Rightarrow> (string \<times> string) set" where
  "cteRel cteDefs = {(b, a). a \<in> fst ` set cteDefs \<and> b \<in> fst ` set cteDefs \<and> cteDependsOn cteDefs a b}"

definition kahnInit :: "cteDefs \<Rightarrow> string list \<Rightarrow> kahn" where
  "kahnInit cteDefs names =
     (collectDependencies cteDefs names)
       \<lparr>k_zero := sort (filter (\<lambda>n. k_inDegree (collectDependencies cteDefs names) n = 0) names)\<rparr>"

section \<open>Greenmask: the transformation configuration builder\<close>

subsection \<open>Results, errors and validation warnings\<close>

text \<open>
  A Go function of the builder ends in one of three ways: it returns its values with a
  nil error (\<open>Ok\<close>), it returns a non-nil error (\<open>Err\<close>, with the error's message), or
  it panics (\<open>Panicked\<close>).
\<close>

datatype 'a outcome =
  Ok 'a
  | Err string
  | Panicked panic

datatype severity = InfoSeverity | WarningSeverity | ErrorSeverity

record validationWarning =
  w_Msg :: string
  w_Severity :: severity
  w_Meta :: "(string \<times> string) list"

text \<open>
  Modelled from the spec: \<open>ValidationWarnings.IsFatal\<close> of \<open>pkg/toolkit\<close> is not among
  the source files.  The spec: a list is fatal iff it contains any warning of severity
  \<open>error\<close>.
\<close>

definition IsFatal :: "validationWarning list \<Rightarrow> bool" where
  "IsFatal ws = list_ex (\<lambda>w. w_Severity w = ErrorSeverity) ws"

definition AddMeta :: "string \<Rightarrow> string \<Rightarrow> validationWarning \<Rightarrow> validationWarning" where
  "AddMeta k v w = w\<lparr>w_Meta := w_Meta w @ [(k, v)]\<rparr>"

subsection \<open>User configuration and the transformer registry\<close>

text \<open>
  \<open>domains.TransformerConfig\<close> and \<open>domains.Table\<close>.  A parameter map
  (\<open>map[string]ParamsValue\<close>) is an association list; \<open>param\<close> reads a parameter as the
  code does with \<open>string(tr.Params[name])\<close>, the empty string where the name is absent.
  \<open>Clone\<close> copies a configuration: in the model configurations are values.
\<close>

record transformerConfig =
  tc_Name :: string
  tc_Params :: "(string \<times> string) list"
  tc_When :: string
  tc_ApplyForReferences :: bool

record dtable =
  d_Schema :: string
  d_Name :: string
  d_ApplyForInherited :: bool
  d_Transformers :: "transformerConfig list"
  d_ColumnsTypeOverride :: "(string \<times> string) list"
  d_SkipAutoAnonymize :: "string list"

definition param :: "(string \<times> string) list \<Rightarrow> string \<Rightarrow> string" where
  "param ps k = (case map_of ps k of Some v \<Rightarrow> v | None \<Rightarrow> [])"

definition setParam :: "string \<Rightarrow> string \<Rightarrow> (string \<times> string) list \<Rightarrow> (string \<times> string) list" where
  "setParam k v ps = (if k \<in> fst ` set ps then map (\<lambda>(k', v'). if k' = k then (k', v) else (k', v')) ps
                      else ps @ [(k, v)])"

definition columnParameterName :: string where
  "columnParameterName = ''column''"

definition engineParameterName :: string where
  "engineParameterName = ''engine''"

text \<open>
  Modelled from the spec: the constants \<open>AllowApplyForReferenced\<close>,
  \<open>RequireHashEngineParameter\<close> and \<open>HashEngineParameterName\<close> of the package
  \<open>transformers\<close>, and the namespaces \<open>record\<close> and \<open>raw_record\<close> of \<open>pkg/toolkit\<close>, are
  declared outside the source files.  The spec: the registry's metadata map holds the
  boolean properties \<open>AllowApplyForReferenced\<close> and \<open>RequireHashEngineParameter\<close>; the
  engine parameter must be literally \<open>hash\<close>; \<open>when\<close> predicates refer to columns as
  \<open>record.<col>\<close> or \<open>raw_record.<col>\<close>.
\<close>

definition AllowApplyForReferenced :: string where
  "AllowApplyForReferenced = ''AllowApplyForReferenced''"

definition RequireHashEngineParameter :: string where
  "RequireHashEngineParameter = ''RequireHashEngineParameter''"

definition HashEngineParameterName :: string where
  "HashEngineParameterName = ''hash''"

definition TransformationConditionNamespaceRecord :: string where
  "TransformationConditionNamespaceRecord = ''record''"

definition TransformationConditionNamespaceRawRecord :: string where
  "TransformationConditionNamespaceRawRecord = ''raw_record''"

text \<open>
  A transformer definition of the registry: its boolean metadata and its parameter
  definitions.  \<open>registry\<close> is \<open>TransformerRegistry.Get\<close>.
\<close>

record parameterDefinition =
  pd_Name :: string
  pd_IsColumn :: bool
  pd_IsColumnContainer :: bool

record transformerDefinition =
  td_Meta :: "(string \<times> bool) list"
  td_Parameters :: "parameterDefinition list"

type_synonym registry = "string \<Rightarrow> transformerDefinition option"

definition GetMeta :: "transformerDefinition \<Rightarrow> string \<Rightarrow> bool option" where
  "GetMeta td k = map_of (td_Meta td) k"

subsection \<open>Entries, bindings and the graph\<close>

text \<open>
  The builder holds its tables as pointers (\<open>*entries.Table\<close>): the slice of the
  tables in scope, the ends of the edges of the graph and the bindings all point to
  entries, and partition expansion writes to an entry through its pointer.  A pointer is
  an address, and the entries are a store from addresses to tables; every read of a field
  of an entry goes through the store.  Configurations are values: the builder changes a
  configuration only where the reference walk appends a transformer to a configuration
  that the same walk has created, to which nothing else points.
\<close>

type_synonym tablePtr = nat

type_synonym entryStore = "tablePtr \<Rightarrow> table"

record tableConfigMapping =
  tcm_entry :: tablePtr
  tcm_config :: dtable

record transformersMapping =
  tm_entry :: tablePtr
  tm_columnName :: string
  tm_attNum :: nat
  tm_cfg :: transformerConfig

text \<open>
  Of \<open>subset.Graph\<close> the builder reads the tables (\<open>GetTables\<close>, \<open>Tables\<close>) and the
  reversed graph (\<open>ReversedGraph\<close>): for the table at index \<open>i\<close>, the edges from it to the
  tables that reference it.  The \<open>To\<close> end of such an edge is the referencing (child)
  table with its foreign-key columns.  \<open>graphLink\<close> and \<open>graphEdge\<close> are \<open>TableLink\<close>
  and \<open>Edge\<close> as the builder reads them, the table of an edge end being a pointer.
\<close>

record graphLink =
  gl_table :: tablePtr
  gl_keys :: "string list"

record graphEdge =
  ge_id :: int
  ge_from :: graphLink
  ge_to :: graphLink

record graph =
  g_tables :: "tablePtr list"
  g_reversedGraph :: "graphEdge list list"

text \<open>\<open>slices.Index\<close> and \<open>slices.IndexFunc\<close>: \<open>None\<close> for \<open>-1\<close>.\<close>

fun slices_IndexFunc :: "'a list \<Rightarrow> ('a \<Rightarrow> bool) \<Rightarrow> nat option" where
  "slices_IndexFunc [] f = None"
| "slices_IndexFunc (x # xs) f =
     (if f x then Some 0 else map_option Suc (slices_IndexFunc xs f))"

definition slices_Index :: "'a list \<Rightarrow> 'a \<Rightarrow> nat option" where
  "slices_Index xs v = slices_IndexFunc xs (\<lambda>x. x = v)"

definition hasTransformerWithApplyForReferences :: "tableConfigMapping \<Rightarrow> bool" where
  "hasTransformerWithApplyForReferences tcm =
     list_ex tc_ApplyForReferences (d_Transformers (tcm_config tcm))"

text \<open>The match of a configured table with an introspected one: by name, or by the
  name in double quotes.\<close>

definition configMatches :: "dtable \<Rightarrow> table \<Rightarrow> bool" where
  "configMatches c entry =
     ((d_Name c = t_Name entry \<or> dq @ d_Name c @ dq = t_Name entry) \<and>
      (d_Schema c = t_Schema entry \<or> dq @ d_Schema c @ dq = t_Schema entry))"

fun findTablesWithTransformers ::
  "entryStore \<Rightarrow> dtable list \<Rightarrow> tablePtr list \<Rightarrow> tableConfigMapping list" where
  "findTablesWithTransformers es cfg [] = []"
| "findTablesWithTransformers es cfg (entry # tables) =
     (case slices_IndexFunc cfg (\<lambda>c. configMatches c (es entry)) of
        None \<Rightarrow> findTablesWithTransformers es cfg tables
      | Some idx \<Rightarrow>
          \<lparr>tcm_entry = entry, tcm_config = cfg ! idx\<rparr> # findTablesWithTransformers es cfg tables)"

subsection \<open>The registry checks\<close>

definition isTransformerAllowedToApplyForReferences ::
  "transformerConfig \<Rightarrow> registry \<Rightarrow> bool \<times> validationWarning list" where
  "isTransformerAllowedToApplyForReferences cfg r =
     (case r (tc_Name cfg) of
        None \<Rightarrow>
          (False, [\<lparr>w_Msg = ''transformer not found'', w_Severity = ErrorSeverity,
                    w_Meta = [(''TransformerName'', tc_Name cfg)]\<rparr>])
      | Some td \<Rightarrow>
          (case GetMeta td AllowApplyForReferenced of
             None \<Rightarrow>
               (False, [\<lparr>w_Msg = ''cannot apply transformer for references: transformer does not support apply for references'',
                         w_Severity = ErrorSeverity,
                         w_Meta = [(''TransformerName'', tc_Name cfg)]\<rparr>])
           | Some allowApplyForReferenced \<Rightarrow>
               if \<not> allowApplyForReferenced then
                 (False, [\<lparr>w_Msg = ''cannot apply transformer for references: transformer does not support apply for references'',
                           w_Severity = ErrorSeverity,
                           w_Meta = [(''TransformerName'', tc_Name cfg)]\<rparr>])
               else
                 (case GetMeta td RequireHashEngineParameter of
                    None \<Rightarrow> (False, [])
                  | Some requireHashEngineParameter \<Rightarrow>
                      if \<not> requireHashEngineParameter then (True, [])
                      else if param (tc_Params cfg) engineParameterName \<noteq> HashEngineParameterName then
                        (False, [\<lparr>w_Msg = ''cannot apply transformer for references: engine parameter is not hash'',
                                  w_Severity = ErrorSeverity,
                                  w_Meta = [(''TransformerName'', tc_Name cfg)]\<rparr>])
                      else (True, []))))"

fun checkWarnings :: "transformerConfig list \<Rightarrow> registry \<Rightarrow> validationWarning list" where
  "checkWarnings [] r = []"
| "checkWarnings (tr # trs) r =
     (if \<not> tc_ApplyForReferences tr then checkWarnings trs r
      else
        let (allowed, w) = isTransformerAllowedToApplyForReferences tr r
        in if \<not> allowed then w @ checkWarnings trs r else checkWarnings trs r)"

definition checkApplyForReferenceMetRequirements ::
  "tableConfigMapping \<Rightarrow> registry \<Rightarrow> bool \<times> validationWarning list" where
  "checkApplyForReferenceMetRequirements tcm r =
     (let warnings = checkWarnings (d_Transformers (tcm_config tcm)) r
      in (\<not> IsFatal warnings, warnings))"

fun checkTransformerAlreadyExists ::
  "dtable list \<Rightarrow> string \<Rightarrow> string \<Rightarrow> string \<Rightarrow> string \<Rightarrow> transformerConfig option" where
  "checkTransformerAlreadyExists [] schemaName tableName tranName tColumn = None"
| "checkTransformerAlreadyExists (c # conf) schemaName tableName tranName tColumn =
     (if d_Name c = tableName \<and> d_Schema c = schemaName then
        (case find (\<lambda>tr. tc_Name tr = tranName \<and>
                          param (tc_Params tr) columnParameterName = tColumn) (d_Transformers c) of
           Some tr \<Rightarrow> Some tr
         | None \<Rightarrow> checkTransformerAlreadyExists conf schemaName tableName tranName tColumn)
      else checkTransformerAlreadyExists conf schemaName tableName tranName tColumn)"

subsection \<open>Reference propagation\<close>

definition collectRootTransformers ::
  "entryStore \<Rightarrow> tablePtr \<Rightarrow> dtable \<Rightarrow> transformersMapping list" where
  "collectRootTransformers es rootTable rootTableCfg =
     List.map_filter
       (\<lambda>tr. if \<not> tc_ApplyForReferences tr \<or> param (tc_Params tr) engineParameterName \<noteq> ''hash''
             then None
             else
               (case slices_Index (t_PrimaryKey (es rootTable)) (param (tc_Params tr) columnParameterName) of
                  None \<Rightarrow> None
                | Some idx \<Rightarrow>
                    Some \<lparr>tm_entry = rootTable,
                          tm_columnName = param (tc_Params tr) columnParameterName,
                          tm_attNum = idx, tm_cfg = tr\<rparr>))
       (d_Transformers rootTableCfg)"

definition findTableIndex :: "entryStore \<Rightarrow> graph \<Rightarrow> tablePtr \<Rightarrow> nat option" where
  "findTableIndex es g tab =
     slices_IndexFunc (g_tables g)
       (\<lambda>t. (t_Name (es tab) = t_Name (es t) \<or> dq @ t_Name (es tab) @ dq = t_Name (es t)) \<and>
            (t_Schema (es tab) = t_Schema (es t) \<or> dq @ t_Schema (es tab) @ dq = t_Schema (es t)))"

text \<open>
  \<open>strings.ReplaceAll(s, old, new)\<close> for a non-empty \<open>old\<close>, which is how the builder
  calls it (\<open>old\<close> starts with a namespace and a dot): the occurrences of \<open>old\<close> are
  replaced from the left, without overlap.  An empty \<open>old\<close> leaves \<open>s\<close> unchanged in the
  model.
\<close>

function strings_ReplaceAll :: "string \<Rightarrow> string \<Rightarrow> string \<Rightarrow> string" where
  "strings_ReplaceAll [] old new = []"
| "strings_ReplaceAll (c # cs) old new =
     (if old \<noteq> [] \<and> prefix old (c # cs)
      then new @ strings_ReplaceAll (drop (length old) (c # cs)) old new
      else c # strings_ReplaceAll cs old new)"
  by pat_completeness auto
termination
  by (relation "measure (\<lambda>(s, old, new). length s)") (auto simp: Suc_le_eq)

text \<open>
  The regular expression \<open>(?:record|raw_record)\.([a-zA-Z_][a-zA-Z0-9_]*)\<close> of
  \<open>validateDoesInheritedConditionHaveAllColumns\<close>, with \<open>FindAllStringSubmatch(s, -1)\<close>:
  the matches are found from the left and do not overlap; a match is one of the two
  namespaces, a dot, and the longest identifier that follows.  \<open>whenColumns s\<close> lists the
  identifiers captured by the successive matches.
\<close>

definition isIdentStart :: "char \<Rightarrow> bool" where
  "isIdentStart c =
     ((CHR ''a'' \<le> c \<and> c \<le> CHR ''z'') \<or> (CHR ''A'' \<le> c \<and> c \<le> CHR ''Z'') \<or> c = CHR ''_'')"

definition isIdentChar :: "char \<Rightarrow> bool" where
  "isIdentChar c = (isIdentStart c \<or> (CHR ''0'' \<le> c \<and> c \<le> CHR ''9''))"

fun stripPrefix :: "string \<Rightarrow> string \<Rightarrow> string option" where
  "stripPrefix [] s = Some s"
| "stripPrefix (p # ps) [] = None"
| "stripPrefix (p # ps) (c # cs) = (if p = c then stripPrefix ps cs else None)"

definition matchIdent :: "string \<Rightarrow> (string \<times> string) option" where
  "matchIdent s =
     (case s of
        [] \<Rightarrow> None
      | c # cs \<Rightarrow>
          if isIdentStart c then Some (c # takeWhile isIdentChar cs, dropWhile isIdentChar cs)
          else None)"

definition matchHere :: "string \<Rightarrow> (string \<times> string) option" where
  "matchHere s =
     (case stripPrefix ''record.'' s of
        Some rest \<Rightarrow> matchIdent rest
      | None \<Rightarrow>
          (case stripPrefix ''raw_record.'' s of
             Some rest \<Rightarrow> matchIdent rest
           | None \<Rightarrow> None))"

lemma stripPrefix_length: "stripPrefix p s = Some r \<Longrightarrow> length r + length p = length s"
  by (induction p s rule: stripPrefix.induct) (auto split: if_splits)

lemma matchIdent_length: "matchIdent s = Some (col, r) \<Longrightarrow> length r < length s"
  by (auto simp: matchIdent_def split: list.splits if_splits
        intro: le_imp_less_Suc length_dropWhile_le)

lemma matchHere_length: "matchHere s = Some (col, r) \<Longrightarrow> length r < length s"
  by (auto simp: matchHere_def split: option.splits
        dest!: stripPrefix_length matchIdent_length)

function whenColumns :: "string \<Rightarrow> string list" where
  "whenColumns [] = []"
| "whenColumns (c # cs) =
     (case matchHere (c # cs) of
        Some (col, rest) \<Rightarrow> col # whenColumns rest
      | None \<Rightarrow> whenColumns cs)"
  by pat_completeness auto
termination
  by (relation "measure length") (auto dest: matchHere_length)

definition validateDoesInheritedConditionHaveAllColumns ::
  "table \<Rightarrow> transformerConfig \<Rightarrow> validationWarning list" where
  "validateDoesInheritedConditionHaveAllColumns t cfg =
     (if tc_When cfg = [] then []
      else
        map (\<lambda>colName.
               \<lparr>w_Msg = ''cannot inherit condition: column '' @ colName @ '' not found in table ''
                         @ t_Schema t @ ''.'' @ t_Name t,
                w_Severity = ErrorSeverity,
                w_Meta = [(''SchemaName'', t_Schema t), (''TableName'', t_Name t),
                          (''ColumnName'', colName)]\<rparr>)
          (filter (\<lambda>colName. \<not> list_ex (\<lambda>c. col_Name c = colName) (t_Columns t))
             (whenColumns (tc_When cfg))))"

definition getColumnTypeOverride :: "dtable \<Rightarrow> string \<Rightarrow> (string \<times> string) list" where
  "getColumnTypeOverride rootTableCfg columnName =
     (if param (d_ColumnsTypeOverride rootTableCfg) columnName \<noteq> []
      then [(columnName, param (d_ColumnsTypeOverride rootTableCfg) columnName)]
      else [])"

definition addTransformerToReferenceTable ::
  "entryStore \<Rightarrow> graphEdge \<Rightarrow> transformerConfig \<Rightarrow> (string \<times> string) list
     \<Rightarrow> tableConfigMapping list \<Rightarrow> tableConfigMapping list" where
  "addTransformerToReferenceTable es r trConf colTypeOverride res =
     (case slices_IndexFunc res
             (\<lambda>tcm. t_Name (es (tcm_entry tcm)) = t_Name (es (gl_table (ge_to r))) \<and>
                    t_Schema (es (tcm_entry tcm)) = t_Schema (es (gl_table (ge_to r)))) of
        Some refTableIdx \<Rightarrow>
          res[refTableIdx :=
                (res ! refTableIdx)\<lparr>tcm_config :=
                   (tcm_config (res ! refTableIdx))
                     \<lparr>d_Transformers :=
                        d_Transformers (tcm_config (res ! refTableIdx)) @ [trConf]\<rparr>\<rparr>]
      | None \<Rightarrow>
          res @ [\<lparr>tcm_entry = gl_table (ge_to r),
                  tcm_config = \<lparr>d_Schema = t_Schema (es (gl_table (ge_to r))),
                                d_Name = t_Name (es (gl_table (ge_to r))),
                                d_ApplyForInherited = False,
                                d_Transformers = [trConf],
                                d_ColumnsTypeOverride = colTypeOverride,
                                d_SkipAutoAnonymize = []\<rparr>\<rparr>])"

text \<open>The clone of a root transformer for the child column \<open>refColName\<close>: the column
  parameter and, where there is a \<open>when\<close> condition, its column references rewritten.\<close>

definition inheritedTransformer :: "transformersMapping \<Rightarrow> string \<Rightarrow> transformerConfig" where
  "inheritedTransformer rootTr refColName =
     (let trConf = (tm_cfg rootTr)\<lparr>tc_Params := setParam ''column'' refColName (tc_Params (tm_cfg rootTr))\<rparr>
      in if tc_When (tm_cfg rootTr) \<noteq> [] then
           let whenCondition = tc_When (tm_cfg rootTr);
               whenCondition = strings_ReplaceAll whenCondition
                 (TransformationConditionNamespaceRecord @ ''.'' @ tm_columnName rootTr)
                 (TransformationConditionNamespaceRecord @ ''.'' @ refColName);
               whenCondition = strings_ReplaceAll whenCondition
                 (TransformationConditionNamespaceRawRecord @ ''.'' @ tm_columnName rootTr)
                 (TransformationConditionNamespaceRawRecord @ ''.'' @ refColName)
           in trConf\<lparr>tc_When := whenCondition\<rparr>
         else trConf)"

text \<open>
  \<open>processReference\<close>: the loop over the root transformers, with the warnings and the
  bindings \<open>res\<close> as state.  Reading \<open>fkKeys[rootTr.attNum]\<close> beyond the keys of the edge
  panics.
\<close>

fun processReference ::
  "entryStore \<Rightarrow> graphEdge \<Rightarrow> dtable \<Rightarrow> transformersMapping list \<Rightarrow> dtable list
     \<Rightarrow> validationWarning list \<times> tableConfigMapping list
     \<Rightarrow> (validationWarning list \<times> tableConfigMapping list) outcome" where
  "processReference es r rootTableCfg [] allTrans (warnings, res) = Ok (warnings, res)"
| "processReference es r rootTableCfg (rootTr # rootTrans) allTrans (warnings, res) =
     (let fkKeys = gl_keys (ge_to r)
      in if tm_attNum rootTr \<ge> length fkKeys then Panicked IndexOutOfRange
         else
           let refColName = fkKeys ! tm_attNum rootTr
           in case checkTransformerAlreadyExists allTrans (t_Schema (es (gl_table (ge_to r))))
                     (t_Name (es (gl_table (ge_to r)))) (tc_Name (tm_cfg rootTr)) refColName of
                Some conf \<Rightarrow> processReference es r rootTableCfg rootTrans allTrans (warnings, res)
              | None \<Rightarrow>
                  let trConf = inheritedTransformer rootTr refColName;
                      ws = validateDoesInheritedConditionHaveAllColumns (es (gl_table (ge_to r))) trConf;
                      colTypeOverride = getColumnTypeOverride rootTableCfg (tm_columnName rootTr)
                  in processReference es r rootTableCfg rootTrans allTrans
                       (warnings @ ws, addTransformerToReferenceTable es r trConf colTypeOverride res))"

text \<open>\<open>isEndToEndPKFK\<close>: reading the reversed graph at the index \<open>-1\<close> of a table that
  is not found, or beyond its length, panics.\<close>

definition isEndToEndPKFK :: "entryStore \<Rightarrow> graph \<Rightarrow> tablePtr \<Rightarrow> bool outcome" where
  "isEndToEndPKFK es g tab =
     (case slices_IndexFunc (g_tables g)
             (\<lambda>t. t_Name (es t) = t_Name (es tab) \<and> t_Schema (es t) = t_Schema (es tab)) of
        None \<Rightarrow> Panicked IndexOutOfRange
      | Some idx \<Rightarrow>
          if idx \<ge> length (g_reversedGraph g) then Panicked IndexOutOfRange
          else Ok (list_ex
                     (\<lambda>ref. list_ex (\<lambda>fkColName. fkColName \<in> set (t_PrimaryKey (es (gl_table (ge_to ref)))))
                              (gl_keys (ge_to ref)))
                     (g_reversedGraph g ! idx)))"

text \<open>
  \<open>buildRefsWithEndToEndDfs\<close> recurses through the reversed graph without a set of
  visited tables, so on a graph with a cycle it need not return.  The model takes the
  depth of recursion it may use: \<open>None\<close> when that depth is exhausted.  \<open>dfsEdges\<close> is
  the loop over the edges of one table, \<open>dfs\<close> being the recursive call.
\<close>

fun dfsEdges ::
  "(tablePtr \<Rightarrow> tableConfigMapping list \<Rightarrow> (validationWarning list \<times> tableConfigMapping list) outcome option)
     \<Rightarrow> entryStore \<Rightarrow> graph \<Rightarrow> dtable \<Rightarrow> transformersMapping list \<Rightarrow> dtable list \<Rightarrow> bool
     \<Rightarrow> graphEdge list \<Rightarrow> validationWarning list \<times> tableConfigMapping list
     \<Rightarrow> (validationWarning list \<times> tableConfigMapping list) outcome option" where
  "dfsEdges dfs es g rootTableCfg rootTrans allTrans checkEndToEnd [] (warnings, res) =
     Some (Ok (warnings, res))"
| "dfsEdges dfs es g rootTableCfg rootTrans allTrans checkEndToEnd (r # rs) (warnings, res) =
     (case (if checkEndToEnd then isEndToEndPKFK es g (gl_table (ge_from r)) else Ok True) of
        Panicked p \<Rightarrow> Some (Panicked p)
      | Err e \<Rightarrow> Some (Err e)
      | Ok False \<Rightarrow> dfsEdges dfs es g rootTableCfg rootTrans allTrans checkEndToEnd rs (warnings, res)
      | Ok True \<Rightarrow>
          (case processReference es r rootTableCfg rootTrans allTrans (warnings, res) of
             Panicked p \<Rightarrow> Some (Panicked p)
           | Err e \<Rightarrow> Some (Err e)
           | Ok (warnings1, res1) \<Rightarrow>
               (case dfs (gl_table (ge_to r)) res1 of
                  None \<Rightarrow> None
                | Some (Panicked p) \<Rightarrow> Some (Panicked p)
                | Some (Err e) \<Rightarrow> Some (Err e)
                | Some (Ok (ws, res2)) \<Rightarrow>
                    dfsEdges dfs es g rootTableCfg rootTrans allTrans checkEndToEnd rs
                      (warnings1 @ ws, res2))))"

fun buildRefsWithEndToEndDfs ::
  "nat \<Rightarrow> entryStore \<Rightarrow> tablePtr \<Rightarrow> dtable \<Rightarrow> transformersMapping list \<Rightarrow> graph \<Rightarrow> dtable list
     \<Rightarrow> tableConfigMapping list \<Rightarrow> bool
     \<Rightarrow> (validationWarning list \<times> tableConfigMapping list) outcome option" where
  "buildRefsWithEndToEndDfs 0 es tab rootTableCfg rootTrans g allTrans res checkEndToEnd = None"
| "buildRefsWithEndToEndDfs (Suc depth) es tab rootTableCfg rootTrans g allTrans res checkEndToEnd =
     (case findTableIndex es g tab of
        None \<Rightarrow>
          Some (Ok ([\<lparr>w_Msg = ''transformer inheritance for ref: cannot find table in the graph: table will be ignored'',
                       w_Severity = WarningSeverity,
                       w_Meta = [(''SchemaName'', t_Schema (es tab)), (''TableName'', t_Name (es tab))]\<rparr>],
                    res))
      | Some tableIdx \<Rightarrow>
          if tableIdx \<ge> length (g_reversedGraph g) then Some (Panicked IndexOutOfRange)
          else
            dfsEdges
              (\<lambda>child res'. buildRefsWithEndToEndDfs depth es child rootTableCfg rootTrans g allTrans res' True)
              es g rootTableCfg rootTrans allTrans checkEndToEnd
              (g_reversedGraph g ! tableIdx) ([], res))"

definition getRefTables ::
  "nat \<Rightarrow> entryStore \<Rightarrow> tablePtr \<Rightarrow> dtable \<Rightarrow> graph \<Rightarrow> dtable list
     \<Rightarrow> (tableConfigMapping list \<times> validationWarning list) outcome option" where
  "getRefTables depth es rootTable rootTableCfg g allTrans =
     (let rootTrans = collectRootTransformers es rootTable rootTableCfg
      in case buildRefsWithEndToEndDfs depth es rootTable rootTableCfg rootTrans g allTrans [] False of
           None \<Rightarrow> None
         | Some (Panicked p) \<Rightarrow> Some (Panicked p)
         | Some (Err e) \<Rightarrow> Some (Err e)
         | Some (Ok (warnings, res)) \<Rightarrow> Some (Ok (res, warnings)))"
subsection \<open>Partition expansion and \<open>setConfigToEntries\<close>\<close>

text \<open>
  The catalog query \<open>TableGetChildPatsQuery\<close> of \<open>findPartitionsOfPartitionedTable\<close> is
  a parameter of the model: for the OID of a table it gives the OIDs of its partitions
  (\<open>Inr\<close>), or the message of the error of the query or of the scan (\<open>Inl\<close>).
\<close>

type_synonym catalog = "32 word \<Rightarrow> string + 32 word list"

definition findPartitionsOfPartitionedTable :: "catalog \<Rightarrow> table \<Rightarrow> string + 32 word list" where
  "findPartitionsOfPartitionedTable tx t =
     (case tx (t_Oid t) of
        Inl e \<Rightarrow> Inl (''error executing TableGetChildPatsQuery: '' @ e)
      | Inr parts \<Rightarrow> Inr parts)"

text \<open>
  The loop of \<open>setupConfigForPartitionedTableChildren\<close> over the partitions.  The
  entry of a partition is written through its pointer (the root partition and the columns
  of the parent, read from the parent's entry at that moment), so the loop passes the
  store along with the bindings; a binding holds the pointer.
\<close>

fun partitionBindings ::
  "tableConfigMapping \<Rightarrow> tablePtr list \<Rightarrow> 32 word list
     \<Rightarrow> tableConfigMapping list \<times> entryStore \<Rightarrow> tableConfigMapping list \<times> entryStore" where
  "partitionBindings parentTcm tables [] (res, es) = (res, es)"
| "partitionBindings parentTcm tables (pt # parts) (res, es) =
     (case slices_IndexFunc tables (\<lambda>tab. t_Oid (es tab) = pt) of
        None \<Rightarrow> partitionBindings parentTcm tables parts (res, es)
      | Some idx \<Rightarrow>
          (let e = tables ! idx;
               es1 = es(e := (es e)\<lparr>t_RootPtName := t_Name (es (tcm_entry parentTcm))\<rparr>);
               es2 = es1(e := (es1 e)\<lparr>t_RootPtSchema := t_Schema (es1 (tcm_entry parentTcm))\<rparr>);
               es3 = es2(e := (es2 e)\<lparr>t_RootPtOid := t_Oid (es2 (tcm_entry parentTcm))\<rparr>);
               es4 = es3(e := (es3 e)\<lparr>t_Columns := t_Columns (es3 (tcm_entry parentTcm))\<rparr>)
           in partitionBindings parentTcm tables parts
                (res @ [\<lparr>tcm_entry = e, tcm_config = tcm_config parentTcm\<rparr>], es4)))"

definition setupConfigForPartitionedTableChildren ::
  "entryStore \<Rightarrow> catalog \<Rightarrow> tableConfigMapping \<Rightarrow> tablePtr list \<Rightarrow> dtable list
     \<Rightarrow> string + tableConfigMapping list \<times> entryStore" where
  "setupConfigForPartitionedTableChildren es tx parentTcm tables cfg =
     (case findPartitionsOfPartitionedTable tx (es (tcm_entry parentTcm)) of
        Inl e \<Rightarrow>
          Inl (''cannot find partitions of the table '' @ t_Schema (es (tcm_entry parentTcm)) @ ''.''
               @ t_Name (es (tcm_entry parentTcm)) @ '': '' @ e)
      | Inr parts \<Rightarrow> Inr (partitionBindings parentTcm tables parts ([], es)))"

text \<open>
  The part of the loop body of \<open>setConfigToEntries\<close> after the reference walk: a table
  that is not a partitioned parent keeps its binding; a partitioned parent without
  \<open>apply_for_inherited\<close> gives an error warning; otherwise its partitions are bound.  The
  state of the loop is the bindings, the warnings and the store of the entries.
\<close>

definition bindOrExpand ::
  "catalog \<Rightarrow> dtable list \<Rightarrow> tablePtr list \<Rightarrow> tableConfigMapping
     \<Rightarrow> tableConfigMapping list \<times> validationWarning list \<times> entryStore
     \<Rightarrow> (tableConfigMapping list \<times> validationWarning list \<times> entryStore) outcome" where
  "bindOrExpand tx cfg tables tcm st =
     (case st of (res, warnings, es) \<Rightarrow>
        if t_RelKind (es (tcm_entry tcm)) \<noteq> CHR ''p'' then Ok (res @ [tcm], warnings, es)
        else if \<not> d_ApplyForInherited (tcm_config tcm) then
          Ok (res, warnings @
                [\<lparr>w_Msg = ''the table is partitioned use apply_for_inherited'',
                  w_Severity = ErrorSeverity,
                  w_Meta = [(''SchemaName'', t_Schema (es (tcm_entry tcm))),
                            (''TableName'', t_Name (es (tcm_entry tcm)))]\<rparr>], es)
        else
          (case setupConfigForPartitionedTableChildren es tx tcm tables cfg of
             Inl e \<Rightarrow> Err (''cannot setup config for partitioned table children: '' @ e)
           | Inr (inhTab, es') \<Rightarrow> Ok (res @ inhTab, warnings, es')))"

text \<open>
  The loop of \<open>setConfigToEntries\<close> over the configured tables.  With a nil error the
  function returns the bindings and the warnings, and leaves the entries as the last
  component of \<open>Ok\<close> has them; with an error or a panic the caller abandons the build,
  and the model does not keep the store.
\<close>

fun setConfigLoop ::
  "nat \<Rightarrow> catalog \<Rightarrow> dtable list \<Rightarrow> tablePtr list \<Rightarrow> graph \<Rightarrow> registry
     \<Rightarrow> tableConfigMapping list \<Rightarrow> tableConfigMapping list \<times> validationWarning list \<times> entryStore
     \<Rightarrow> (tableConfigMapping list \<times> validationWarning list \<times> entryStore) outcome option" where
  "setConfigLoop depth tx cfg tables g r [] (res, warnings, es) = Some (Ok (res, warnings, es))"
| "setConfigLoop depth tx cfg tables g r (tcm # tcms) (res, warnings, es) =
     (if hasTransformerWithApplyForReferences tcm then
        (case checkApplyForReferenceMetRequirements tcm r of
           (False, checkWarns) \<Rightarrow>
             setConfigLoop depth tx cfg tables g r tcms (res, warnings @ checkWarns, es)
         | (True, checkWarns) \<Rightarrow>
             (case getRefTables depth es (tcm_entry tcm) (tcm_config tcm) g cfg of
                None \<Rightarrow> None
              | Some (Panicked p) \<Rightarrow> Some (Panicked p)
              | Some (Err e) \<Rightarrow> Some (Err e)
              | Some (Ok (refTables, warns)) \<Rightarrow>
                  (case bindOrExpand tx cfg tables tcm (res @ refTables, warnings @ warns, es) of
                     Panicked p \<Rightarrow> Some (Panicked p)
                   | Err e \<Rightarrow> Some (Err e)
                   | Ok st \<Rightarrow> setConfigLoop depth tx cfg tables g r tcms st)))
      else
        (case bindOrExpand tx cfg tables tcm (res, warnings, es) of
           Panicked p \<Rightarrow> Some (Panicked p)
         | Err e \<Rightarrow> Some (Err e)
         | Ok st \<Rightarrow> setConfigLoop depth tx cfg tables g r tcms st))"

definition setConfigToEntries ::
  "nat \<Rightarrow> entryStore \<Rightarrow> catalog \<Rightarrow> dtable list \<Rightarrow> tablePtr list \<Rightarrow> graph \<Rightarrow> registry
     \<Rightarrow> (tableConfigMapping list \<times> validationWarning list \<times> entryStore) outcome option" where
  "setConfigToEntries depth es tx cfg tables g r =
     setConfigLoop depth tx cfg tables g r (findTablesWithTransformers es cfg tables) ([], [], es)"

subsection \<open>Default transformers (\<open>auto_anonymize\<close>)\<close>

text \<open>
  Modelled from the spec: \<open>Column.GetType\<close> of \<open>pkg/toolkit\<close> is not among the source
  files.  The spec: a column has a type name and optionally an overriding type, which
  replaces the type name.
\<close>

definition GetType :: "column \<Rightarrow> string" where
  "GetType c = (if col_OverriddenTypeName c \<noteq> [] then col_OverriddenTypeName c else col_TypeName c)"

text \<open>
  \<open>strings.ToLower\<close> of Go's standard library: a string of ASCII bytes has its letters
  \<open>A\<close> to \<open>Z\<close> lowered; a string with a byte of \<open>0x80\<close> or more is mapped rune by rune
  with \<open>unicode.ToLower\<close>, whose tables are a parameter of the model (\<open>caseMapping\<close>,
  called on such strings only).
\<close>

type_synonym caseMapping = "string \<Rightarrow> string"

definition toLowerChar :: "char \<Rightarrow> char" where
  "toLowerChar c =
     (if CHR ''A'' \<le> c \<and> c \<le> CHR ''Z'' then char_of (of_char c + (32::nat)) else c)"

definition isASCII :: "string \<Rightarrow> bool" where
  "isASCII s = list_all (\<lambda>c. (of_char c :: nat) < 128) s"

definition strings_ToLower :: "caseMapping \<Rightarrow> string \<Rightarrow> string" where
  "strings_ToLower unicodeToLower s = (if isASCII s then map toLowerChar s else unicodeToLower s)"

definition strings_HasPrefix :: "string \<Rightarrow> string \<Rightarrow> bool" where
  "strings_HasPrefix s p = prefix p s"

definition strings_HasSuffix :: "string \<Rightarrow> string \<Rightarrow> bool" where
  "strings_HasSuffix s p = suffix p s"

definition defaultConfig :: "string \<Rightarrow> (string \<times> string) list \<Rightarrow> transformerConfig" where
  "defaultConfig name params =
     \<lparr>tc_Name = name, tc_Params = params, tc_When = [], tc_ApplyForReferences = False\<rparr>"

definition getDefaultTransformerForScalarType ::
  "caseMapping \<Rightarrow> column \<Rightarrow> string \<Rightarrow> string + transformerConfig" where
  "getDefaultTransformerForScalarType unicodeToLower c typeName =
     (let ty = strings_ToLower unicodeToLower typeName in
      if ty \<in> set [''text'', ''varchar'', ''character varying'', ''char'', ''character'', ''bpchar''] then
        Inr (defaultConfig ''RandomString''
               [(''column'', col_Name c), (''min_length'', ''5''), (''max_length'', ''20'')])
      else if ty \<in> set [''integer'', ''int'', ''int4'', ''bigint'', ''int8'', ''smallint'', ''int2''] then
        Inr (defaultConfig ''RandomInt''
               [(''column'', col_Name c), (''min'', ''1''), (''max'', ''2147483647'')])
      else if ty \<in> set [''numeric'', ''decimal''] then
        Inr (defaultConfig ''RandomNumeric''
               [(''column'', col_Name c), (''min'', ''1''), (''max'', ''999999''),
                (''precision'', ''10''), (''scale'', ''2'')])
      else if ty \<in> set [''real'', ''float4'', ''double precision'', ''float8''] then
        Inr (defaultConfig ''RandomFloat''
               [(''column'', col_Name c), (''min'', ''1.0''), (''max'', ''1000000.0'')])
      else if ty = ''date'' then
        Inr (defaultConfig ''RandomDate''
               [(''column'', col_Name c), (''min'', ''1970-01-01''), (''max'', ''2024-12-31'')])
      else if ty \<in> set [''timestamp'', ''timestamp without time zone''] then
        Inr (defaultConfig ''RandomDate''
               [(''column'', col_Name c), (''min'', ''1970-01-01 00:00:00''),
                (''max'', ''2024-12-31 23:59:59'')])
      else if ty \<in> set [''timestamptz'', ''timestamp with time zone''] then
        Inr (defaultConfig ''RandomDate''
               [(''column'', col_Name c), (''min'', ''1970-01-01 00:00:00+00''),
                (''max'', ''2024-12-31 23:59:59+00'')])
      else if ty \<in> set [''boolean'', ''bool''] then
        Inr (defaultConfig ''RandomBool'' [(''column'', col_Name c)])
      else if ty = ''uuid'' then
        Inr (defaultConfig ''RandomUuid'' [(''column'', col_Name c)])
      else if ty \<in> set [''json'', ''jsonb''] then
        Inr (defaultConfig ''Replace'' [(''column'', col_Name c), (''value'', ''{}'')])
      else
        Inl (''unable to get default transformer for column '' @ col_Name c @ '' and type ''
             @ typeName))"

definition getDefaultTransformerForArrayType :: "column \<Rightarrow> string \<Rightarrow> string + transformerConfig" where
  "getDefaultTransformerForArrayType c typeName =
     Inr (defaultConfig ''Replace''
            [(''column'', col_Name c), (''value'', ''{}''), (''keep_null'', ''true'')])"

definition GetDefaultTransformerForColumn :: "caseMapping \<Rightarrow> column \<Rightarrow> string + transformerConfig" where
  "GetDefaultTransformerForColumn unicodeToLower c =
     (let typeName = GetType c;
          canonicalType = col_CanonicalTypeName c;
          typeName = (if canonicalType \<noteq> [] then canonicalType else typeName)
      in if strings_HasSuffix typeName ''[]'' \<or> strings_HasPrefix typeName ''_''
         then getDefaultTransformerForArrayType c typeName
         else getDefaultTransformerForScalarType unicodeToLower c typeName)"

text \<open>
  \<open>encoding/json\<close> is Go's standard library: the decoding of a parameter as a JSON array
  of objects is a parameter of the model, \<open>Some\<close> of the objects' \<open>name\<close> fields when
  \<open>json.Unmarshal\<close> succeeds, \<open>None\<close> when it fails.
\<close>

type_synonym jsonDecoder = "string \<Rightarrow> string list option"

definition extractColumnNamesFromParam :: "jsonDecoder \<Rightarrow> string \<Rightarrow> string list" where
  "extractColumnNamesFromParam unmarshal p =
     (case unmarshal p of
        Some columnDefs \<Rightarrow>
          if length columnDefs > 0 then filter (\<lambda>n. n \<noteq> []) columnDefs else []
      | None \<Rightarrow> [])"

definition extractColumnNamesFromTransformer ::
  "jsonDecoder \<Rightarrow> transformerConfig \<Rightarrow> registry \<Rightarrow> string + string list" where
  "extractColumnNamesFromTransformer unmarshal transformer reg =
     (case reg (tc_Name transformer) of
        None \<Rightarrow> Inl (''transformer '' @ tc_Name transformer @ '' not found in registry'')
      | Some transformerDef \<Rightarrow>
          Inr (concat (map
                 (\<lambda>paramDef.
                    if pd_IsColumn paramDef then
                      (case map_of (tc_Params transformer) (pd_Name paramDef) of
                         Some paramValue \<Rightarrow> [paramValue]
                       | None \<Rightarrow> [])
                    else if pd_IsColumnContainer paramDef then
                      (case map_of (tc_Params transformer) (pd_Name paramDef) of
                         Some paramValue \<Rightarrow> extractColumnNamesFromParam unmarshal paramValue
                       | None \<Rightarrow> [])
                    else [])
                 (td_Parameters transformerDef))))"

text \<open>The first loop of \<open>generateDefaultTransformersForUndefinedColumns\<close>: the names of
  the columns that have a configured transformer, or the error of the first transformer
  that the default registry does not know.\<close>

fun definedColumns :: "jsonDecoder \<Rightarrow> registry \<Rightarrow> transformerConfig list \<Rightarrow> string + string list" where
  "definedColumns unmarshal reg [] = Inr []"
| "definedColumns unmarshal reg (transformer # trs) =
     (case extractColumnNamesFromTransformer unmarshal transformer reg of
        Inl e \<Rightarrow>
          Inl (''failed to extract column names from transformer '' @ tc_Name transformer
               @ '': '' @ e)
      | Inr columnNames \<Rightarrow>
          (case definedColumns unmarshal reg trs of
             Inl e \<Rightarrow> Inl e
           | Inr rest \<Rightarrow> Inr (columnNames @ rest)))"

text \<open>The loop over the columns of the table.\<close>

fun defaultTransformers ::
  "caseMapping \<Rightarrow> table \<Rightarrow> string list \<Rightarrow> string list \<Rightarrow> column list
     \<Rightarrow> string + transformerConfig list" where
  "defaultTransformers unicodeToLower t defined skip [] = Inr []"
| "defaultTransformers unicodeToLower t defined skip (c # cs) =
     (if col_Name c \<in> set defined then defaultTransformers unicodeToLower t defined skip cs
      else if col_Name c \<in> set skip then defaultTransformers unicodeToLower t defined skip cs
      else if col_IsGenerated c then defaultTransformers unicodeToLower t defined skip cs
      else if col_Name c \<in> set (t_PrimaryKey t) then defaultTransformers unicodeToLower t defined skip cs
      else
        (case GetDefaultTransformerForColumn unicodeToLower c of
           Inl e \<Rightarrow>
             Inl (''error getting default transformer for column '' @ col_Name c @ '': '' @ e)
         | Inr defaultTransformer \<Rightarrow>
             (case defaultTransformers unicodeToLower t defined skip cs of
                Inl e \<Rightarrow> Inl e
              | Inr rest \<Rightarrow> Inr (defaultTransformer # rest))))"

definition generateDefaultTransformersForUndefinedColumns ::
  "caseMapping \<Rightarrow> jsonDecoder \<Rightarrow> registry \<Rightarrow> table \<Rightarrow> dtable \<Rightarrow> string + transformerConfig list" where
  "generateDefaultTransformersForUndefinedColumns unicodeToLower unmarshal defaultRegistry t tableConfig =
     (case definedColumns unmarshal defaultRegistry (d_Transformers tableConfig) of
        Inl e \<Rightarrow> Inl e
      | Inr defined \<Rightarrow>
          defaultTransformers unicodeToLower t defined (d_SkipAutoAnonymize tableConfig) (t_Columns t))"

text \<open>
  \<open>initTransformer\<close> is not among the source files: it is a parameter of the model,
  giving for a table and a transformer configuration the warnings of the initialisation
  and its error, if any.  \<open>initAndSetupTransformers\<close> returns its warnings and its error
  (\<open>None\<close> for nil); the model returns with them the table configuration as the function
  leaves it, and the configurations whose transformers were initialised.
\<close>

type_synonym initTransformer = "table \<Rightarrow> transformerConfig \<Rightarrow> validationWarning list \<times> string option"

definition enrichWarningsWithTransformerName ::
  "validationWarning list \<Rightarrow> string \<Rightarrow> validationWarning list" where
  "enrichWarningsWithTransformerName warns n = map (AddMeta ''TransformerName'' n) warns"

fun initLoop ::
  "initTransformer \<Rightarrow> table \<Rightarrow> transformerConfig list
     \<Rightarrow> validationWarning list \<times> transformerConfig list
     \<Rightarrow> validationWarning list \<times> string option \<times> transformerConfig list" where
  "initLoop init t [] (warnings, ctxs) = (warnings, None, ctxs)"
| "initLoop init t (tc # tcs) (warnings, ctxs) =
     (case init t tc of (initWarnings0, err) \<Rightarrow>
        let initWarnings = enrichWarningsWithTransformerName initWarnings0 (tc_Name tc)
        in (case err of
              Some e \<Rightarrow> (initWarnings, Some e, ctxs)
            | None \<Rightarrow> initLoop init t tcs (warnings @ initWarnings, ctxs @ [tc])))"

record initResult =
  ir_warnings :: "validationWarning list"
  ir_err :: "string option"
  ir_tableConfig :: dtable
  ir_contexts :: "transformerConfig list"

definition initAndSetupTransformers ::
  "caseMapping \<Rightarrow> jsonDecoder \<Rightarrow> registry \<Rightarrow> initTransformer \<Rightarrow> table \<Rightarrow> dtable \<Rightarrow> bool
     \<Rightarrow> initResult" where
  "initAndSetupTransformers unicodeToLower unmarshal defaultRegistry init t tableConfig autoAnonymize =
     (case (if autoAnonymize
            then (case generateDefaultTransformersForUndefinedColumns unicodeToLower unmarshal
                         defaultRegistry t tableConfig of
                    Inl e \<Rightarrow> Inl (''cannot generate default transformers for undefined columns: '' @ e)
                  | Inr defaults \<Rightarrow>
                      Inr (tableConfig\<lparr>d_Transformers := d_Transformers tableConfig @ defaults\<rparr>))
            else Inr tableConfig) of
        Inl e \<Rightarrow> \<lparr>ir_warnings = [], ir_err = Some e, ir_tableConfig = tableConfig, ir_contexts = []\<rparr>
      | Inr tableConfig1 \<Rightarrow>
          if length (d_Transformers tableConfig1) = 0
          then \<lparr>ir_warnings = [], ir_err = None, ir_tableConfig = tableConfig1, ir_contexts = []\<rparr>
          else
            (case initLoop init t (d_Transformers tableConfig1) ([], []) of
               (warnings, err, ctxs) \<Rightarrow>
                 \<lparr>ir_warnings = warnings, ir_err = err, ir_tableConfig = tableConfig1,
                  ir_contexts = ctxs\<rparr>))"

subsection \<open>Notions used in the properties of the builder\<close>

text \<open>
  \<open>graphChildren g\<close>: the tables at the \<open>To\<close> end of the edges of the reversed graph,
  which are the tables that reference propagation can bind.  \<open>leafPartitions es tx tables\<close>:
  the catalog's partition lookup gives, among the tables in scope, leaf partitions only, as
  the spec says of this lookup.  \<open>asPartitionOf parent e\<close>: the entry \<open>e\<close> with the
  parent recorded on it, as partition expansion leaves it.  \<open>keepsIdentity es es'\<close>: the
  store \<open>es'\<close> has the entries of \<open>es\<close> with the same name, schema, OID, primary key and
  kind: the fields that partition expansion does not write.
\<close>

definition graphChildren :: "graph \<Rightarrow> tablePtr set" where
  "graphChildren g = {gl_table (ge_to r) | r rs. rs \<in> set (g_reversedGraph g) \<and> r \<in> set rs}"

definition leafPartitions :: "entryStore \<Rightarrow> catalog \<Rightarrow> tablePtr list \<Rightarrow> bool" where
  "leafPartitions es tx tables \<longleftrightarrow>
     (\<forall>oid parts pt idx. tx oid = Inr parts \<longrightarrow> pt \<in> set parts \<longrightarrow>
        slices_IndexFunc tables (\<lambda>tab. t_Oid (es tab) = pt) = Some idx \<longrightarrow>
        t_RelKind (es (tables ! idx)) \<noteq> CHR ''p'')"

definition asPartitionOf :: "table \<Rightarrow> table \<Rightarrow> table" where
  "asPartitionOf parent e =
     e\<lparr>t_RootPtName := t_Name parent, t_RootPtSchema := t_Schema parent,
       t_RootPtOid := t_Oid parent, t_Columns := t_Columns parent\<rparr>"

definition keepsIdentity :: "entryStore \<Rightarrow> entryStore \<Rightarrow> bool" where
  "keepsIdentity es es' \<longleftrightarrow>
     (\<forall>p. t_Name (es' p) = t_Name (es p) \<and> t_Schema (es' p) = t_Schema (es p) \<and>
          t_Oid (es' p) = t_Oid (es p) \<and> t_PrimaryKey (es' p) = t_PrimaryKey (es p) \<and>
          t_RelKind (es' p) = t_RelKind (es p))"

text \<open>
  \<open>bindsTransformer es child x res\<close>: the bindings \<open>res\<close> have one for the table \<open>child\<close>
  (compared by name and schema, as \<open>addTransformerToReferenceTable\<close> compares) whose
  transformers include \<open>x\<close>.  \<open>endToEndEdge es ref\<close>: a foreign-key column of the edge's
  child table is also in the primary key of that child table.
\<close>

definition bindsTransformer ::
  "entryStore \<Rightarrow> tablePtr \<Rightarrow> transformerConfig \<Rightarrow> tableConfigMapping list \<Rightarrow> bool" where
  "bindsTransformer es child x res \<longleftrightarrow>
     (\<exists>b \<in> set res. t_Name (es (tcm_entry b)) = t_Name (es child) \<and>
                     t_Schema (es (tcm_entry b)) = t_Schema (es child) \<and>
                     x \<in> set (d_Transformers (tcm_config b)))"

definition endToEndEdge :: "entryStore \<Rightarrow> graphEdge \<Rightarrow> bool" where
  "endToEndEdge es ref \<longleftrightarrow>
     (\<exists>col \<in> set (gl_keys (ge_to ref)). col \<in> set (t_PrimaryKey (es (gl_table (ge_to ref)))))"

text \<open>
  The conditions under which the builder returns.  \<open>graphHeight es g h\<close>: \<open>h\<close>
  decreases along every edge of the reversed graph, so the graph has no cycle and the walk
  from the table of index \<open>k\<close> is no deeper than \<open>h k\<close>.  \<open>graphIndexed es g\<close>: the
  reversed graph has a list of edges for each table of the graph, and the table that an
  edge leaves is a table of the graph; then no index read of the walk is out of range.
  \<open>keysCover es g tables\<close>: every edge has a foreign-key column for each position of
  the primary key of each table in scope (\<open>fkKeys[rootTr.attNum]\<close> is in range).
  \<open>catalogAnswers tx\<close>: the partition lookup has no error.
\<close>

definition graphHeight :: "entryStore \<Rightarrow> graph \<Rightarrow> (nat \<Rightarrow> nat) \<Rightarrow> bool" where
  "graphHeight es g h \<longleftrightarrow>
     (\<forall>k < length (g_reversedGraph g). \<forall>r \<in> set (g_reversedGraph g ! k).
        \<forall>j. findTableIndex es g (gl_table (ge_to r)) = Some j \<longrightarrow> h j < h k)"

definition graphIndexed :: "entryStore \<Rightarrow> graph \<Rightarrow> bool" where
  "graphIndexed es g \<longleftrightarrow>
     length (g_reversedGraph g) = length (g_tables g) \<and>
     (\<forall>rs \<in> set (g_reversedGraph g). \<forall>r \<in> set rs.
        \<exists>t \<in> set (g_tables g). t_Name (es t) = t_Name (es (gl_table (ge_from r))) \<and>
                               t_Schema (es t) = t_Schema (es (gl_table (ge_from r))))"

definition keysCover :: "entryStore \<Rightarrow> graph \<Rightarrow> tablePtr list \<Rightarrow> bool" where
  "keysCover es g tables \<longleftrightarrow>
     (\<forall>e \<in> set tables. \<forall>rs \<in> set (g_reversedGraph g). \<forall>r \<in> set rs.
        length (t_PrimaryKey (es e)) \<le> length (gl_keys (ge_to r)))"

definition catalogAnswers :: "catalog \<Rightarrow> bool" where
  "catalogAnswers tx \<longleftrightarrow> (\<forall>oid. \<exists>parts. tx oid = Inr parts)"

text \<open>
  \<open>partitionLookup es tables parts\<close>: the indices, among the tables in scope, of the
  partitions that the catalog has given, in its order: \<open>slices.IndexFunc\<close> by OID, a
  partition that is not in scope being left out.  \<open>partitionEntries parent tables idxs es\<close>:
  the entries after the partitions of these indices have had the parent recorded on them,
  one after the other.
\<close>

definition partitionLookup :: "entryStore \<Rightarrow> tablePtr list \<Rightarrow> 32 word list \<Rightarrow> nat list" where
  "partitionLookup es tables parts =
     List.map_filter (\<lambda>pt. slices_IndexFunc tables (\<lambda>tab. t_Oid (es tab) = pt)) parts"

definition partitionEntries :: "tablePtr \<Rightarrow> tablePtr list \<Rightarrow> nat list \<Rightarrow> entryStore \<Rightarrow> entryStore" where
  "partitionEntries parent tables idxs es =
     fold (\<lambda>idx s. s(tables ! idx := asPartitionOf (s parent) (s (tables ! idx)))) idxs es"

text \<open>
  What \<open>setConfigToEntries\<close> returns, the bindings and the warnings, apart from the
  entries it leaves (\<open>returned\<close>); the entries it leaves at given addresses
  (\<open>entriesAfter\<close>); and the warning of a transformer that the registry does not allow
  for references.
\<close>

definition returned ::
  "(tableConfigMapping list \<times> validationWarning list \<times> entryStore) outcome option
     \<Rightarrow> (tableConfigMapping list \<times> validationWarning list) outcome option" where
  "returned out = map_option (map_outcome (\<lambda>(res, ws, es). (res, ws))) out"

definition entriesAfter ::
  "(tableConfigMapping list \<times> validationWarning list \<times> entryStore) outcome option
     \<Rightarrow> tablePtr list \<Rightarrow> table list" where
  "entriesAfter out ps = (case out of Some (Ok (res, ws, es)) \<Rightarrow> map es ps | _ \<Rightarrow> [])"

subsection \<open>The planner's calls of \<open>addItem\<close>\<close>

text \<open>
  The planner fills a \<open>cteQuery\<close> by calling \<open>addItem\<close> once per generated CTE.
  \<open>addItems q calls\<close> is the query after the calls \<open>calls\<close>, each a pair of a name
  and a body, made in that order.
\<close>

definition addItems :: "cteQuery \<Rightarrow> (string \<times> string) list \<Rightarrow> cteQuery" where
  "addItems q calls = foldl (\<lambda>q (n, s). addItem q n s) q calls"

subsection \<open>Fixture: the two-table cycle \<open>a(b_id) -> b(id)\<close>, \<open>b(a_id) -> a(id)\<close>\<close>

definition intColumn :: "string \<Rightarrow> column" where
  "intColumn n = \<lparr>col_Name = n, col_TypeName = ''int4'', col_CanonicalTypeName = ''integer'',
                   col_OverriddenTypeName = [], col_IsGenerated = False\<rparr>"

definition tabA :: table where
  "tabA = \<lparr>t_Schema = ''public'', t_Name = ''a'', t_Oid = 1,
     t_Columns = [intColumn ''id'', intColumn ''b_id''],
     t_PrimaryKey = [''id''], t_RelKind = CHR ''r'',
     t_RootPtSchema = [], t_RootPtName = [], t_RootPtOid = 0\<rparr>"

definition tabB :: table where
  "tabB = \<lparr>t_Schema = ''public'', t_Name = ''b'', t_Oid = 2,
     t_Columns = [intColumn ''id'', intColumn ''a_id''],
     t_PrimaryKey = [''id''], t_RelKind = CHR ''r'',
     t_RootPtSchema = [], t_RootPtName = [], t_RootPtOid = 0\<rparr>"

definition edgeAB :: edge where
  "edgeAB = \<lparr>e_id = 1, e_from = \<lparr>tl_table = tabA, tl_keys = [''b_id'']\<rparr>,
             e_to = \<lparr>tl_table = tabB, tl_keys = [''id'']\<rparr>\<rparr>"

definition edgeBA :: edge where
  "edgeBA = \<lparr>e_id = 2, e_from = \<lparr>tl_table = tabB, tl_keys = [''a_id'']\<rparr>,
             e_to = \<lparr>tl_table = tabA, tl_keys = [''id'']\<rparr>\<rparr>"

definition compAB :: component where
  "compAB = \<lparr>cycles = [[edgeAB, edgeBA]], groupedCycles = [[0]]\<rparr>"

definition callsAB :: "(string \<times> string) list" where
  "callsAB = [(''public__a__ids'', ''SELECT A UNION SELECT A2''),
              (''public__b__ids'', ''SELECT B UNION SELECT B2''),
              (''public__a__ids'', ''SELECT A UNION SELECT A2'')]"

definition queryAB :: string where
  \<open>queryAB = ''WITH RECURSIVE  public__a__ids AS (SELECT A UNION SELECT A2) SELECT "public"."a"."id", "public"."a"."b_id" FROM "public"."a" WHERE ("public"."a"."id") IN (SELECT "public__a__ids"."id" FROM "public__a__ids")''\<close>

definition compTwoGroups :: component where
  "compTwoGroups = \<lparr>cycles = [[edgeAB, edgeBA], [edgeBA, edgeAB]], groupedCycles = [[0], [1]]\<rparr>"

subsection \<open>Fixtures: CTE maps\<close>

text \<open>
  \<open>defsChain\<close>: \<open>a\<close> references \<open>b\<close>; \<open>defsCycle\<close>: \<open>a\<close> and \<open>b\<close> reference each
  other; \<open>defsSelf\<close>: the recursive CTE \<open>a\<close> references itself and \<open>b\<close>.
\<close>

definition defsChain :: cteDefs where
  \<open>defsChain = [(''b'', ''SELECT 1''), (''a'', ''SELECT * FROM "b"''), (''c'', ''SELECT 2'')]\<close>

definition defsCycle :: cteDefs where
  \<open>defsCycle = [(''a'', ''SELECT * FROM "b"''), (''b'', ''SELECT * FROM "a"'')]\<close>

definition defsSelf :: cteDefs where
  \<open>defsSelf = [(''a'', ''SELECT 1 UNION SELECT * FROM "a" JOIN "b"''), (''b'', ''SELECT 1'')]\<close>

subsection \<open>Fixtures: tables, graphs, registries and configurations\<close>

definition mkColumn :: "string \<Rightarrow> string \<Rightarrow> column" where
  "mkColumn n ty = \<lparr>col_Name = n, col_TypeName = ty, col_CanonicalTypeName = [],
                    col_OverriddenTypeName = [], col_IsGenerated = False\<rparr>"

definition mkTable :: "string \<Rightarrow> 32 word \<Rightarrow> column list \<Rightarrow> string list \<Rightarrow> char \<Rightarrow> table" where
  "mkTable n oid cols pk kind =
     \<lparr>t_Schema = ''public'', t_Name = n, t_Oid = oid, t_Columns = cols, t_PrimaryKey = pk,
      t_RelKind = kind, t_RootPtSchema = [], t_RootPtName = [], t_RootPtOid = 0\<rparr>"

definition mkConfig :: "string \<Rightarrow> bool \<Rightarrow> transformerConfig list \<Rightarrow> dtable" where
  "mkConfig n inherited trs =
     \<lparr>d_Schema = ''public'', d_Name = n, d_ApplyForInherited = inherited, d_Transformers = trs,
      d_ColumnsTypeOverride = [], d_SkipAutoAnonymize = []\<rparr>"

definition mkEdge :: "int \<Rightarrow> tablePtr \<Rightarrow> string list \<Rightarrow> tablePtr \<Rightarrow> string list \<Rightarrow> graphEdge" where
  "mkEdge i parent parentKeys child childKeys =
     \<lparr>ge_id = i, ge_from = \<lparr>gl_table = parent, gl_keys = parentKeys\<rparr>,
      ge_to = \<lparr>gl_table = child, gl_keys = childKeys\<rparr>\<rparr>"

text \<open>
  The schema of the reference-propagation scenario: \<open>orders.user_id -> users.id\<close>,
  \<open>order_items.order_id -> orders.id\<close> with \<open>order_id\<close> the primary key of
  \<open>order_items\<close>, \<open>comments.user_id -> users.id\<close> with \<open>comments.id\<close> a separate key,
  and \<open>replies.comment_id -> comments.id\<close> with \<open>replies.id\<close> a separate key.
  \<open>order_notes\<close>, with its own key \<open>id\<close> and \<open>order_notes.order_id -> orders.id\<close>, is
  in \<open>graphNotes\<close>.  \<open>accounts\<close>, with \<open>users.account_id -> accounts.id\<close>, is in
  \<open>graphAccounts\<close>.
\<close>

definition tabUsers :: table where
  "tabUsers = mkTable ''users'' 100
     [mkColumn ''id'' ''int4'', mkColumn ''name'' ''text'', mkColumn ''account_id'' ''int4''] [''id''] (CHR ''r'')"

definition tabOrders :: table where
  "tabOrders = mkTable ''orders'' 101 [mkColumn ''id'' ''int4'', mkColumn ''user_id'' ''int4''] [''id''] (CHR ''r'')"

definition tabOrderItems :: table where
  "tabOrderItems = mkTable ''order_items'' 102 [mkColumn ''order_id'' ''int4'', mkColumn ''qty'' ''int4'']
     [''order_id''] (CHR ''r'')"

definition tabComments :: table where
  "tabComments = mkTable ''comments'' 103 [mkColumn ''id'' ''int4'', mkColumn ''user_id'' ''int4''] [''id''] (CHR ''r'')"

definition tabOrderNotes :: table where
  "tabOrderNotes = mkTable ''order_notes'' 104 [mkColumn ''id'' ''int4'', mkColumn ''order_id'' ''int4'']
     [''id''] (CHR ''r'')"

definition tabReplies :: table where
  "tabReplies = mkTable ''replies'' 105 [mkColumn ''id'' ''int4'', mkColumn ''comment_id'' ''int4'']
     [''id''] (CHR ''r'')"

definition tabAccounts :: table where
  "tabAccounts = mkTable ''accounts'' 106 [mkColumn ''id'' ''int4''] [''id''] (CHR ''r'')"

text \<open>The partitioned table \<open>events\<close> with the partitions \<open>events_2024\<close> and
  \<open>events_2025\<close>, and \<open>events.user_id -> users.id\<close>.\<close>

definition tabEvents :: table where
  "tabEvents = mkTable ''events'' 200
     [mkColumn ''id'' ''int4'', mkColumn ''ts'' ''timestamp'', mkColumn ''user_id'' ''int4''] [''id''] (CHR ''p'')"

definition tabEvents2024 :: table where
  "tabEvents2024 = mkTable ''events_2024'' 201
     [mkColumn ''id'' ''int4'', mkColumn ''ts'' ''timestamp'', mkColumn ''user_id'' ''int4''] [''id''] (CHR ''r'')"

definition tabEvents2025 :: table where
  "tabEvents2025 = mkTable ''events_2025'' 202
     [mkColumn ''id'' ''int4'', mkColumn ''ts'' ''timestamp'', mkColumn ''user_id'' ''int4''] [''id''] (CHR ''r'')"

text \<open>
  The entries: one store for all the scenarios, each table at an address of its own.
\<close>

definition pUsers :: tablePtr where "pUsers = 0"
definition pOrders :: tablePtr where "pOrders = 1"
definition pOrderItems :: tablePtr where "pOrderItems = 2"
definition pComments :: tablePtr where "pComments = 3"
definition pReplies :: tablePtr where "pReplies = 4"
definition pOrderNotes :: tablePtr where "pOrderNotes = 5"
definition pEvents :: tablePtr where "pEvents = 7"
definition pEvents2024 :: tablePtr where "pEvents2024 = 8"
definition pEvents2025 :: tablePtr where "pEvents2025 = 9"

definition entriesShop :: entryStore where
  "entriesShop p =
     (if p = 0 then tabUsers else if p = 1 then tabOrders else if p = 2 then tabOrderItems
      else if p = 3 then tabComments else if p = 4 then tabReplies else if p = 5 then tabOrderNotes
      else if p = 6 then tabAccounts else if p = 7 then tabEvents else if p = 8 then tabEvents2024
      else tabEvents2025)"

definition graphShop :: graph where
  "graphShop =
     \<lparr>g_tables = [pUsers, pOrders, pOrderItems, pComments, pReplies],
      g_reversedGraph =
        [[mkEdge 1 pUsers [''id''] pOrders [''user_id''],
          mkEdge 3 pUsers [''id''] pComments [''user_id'']],
         [mkEdge 2 pOrders [''id''] pOrderItems [''order_id'']],
         [],
         [mkEdge 5 pComments [''id''] pReplies [''comment_id'']],
         []]\<rparr>"

definition graphNotes :: graph where
  "graphNotes =
     \<lparr>g_tables = [pUsers, pOrders, pOrderItems, pOrderNotes],
      g_reversedGraph =
        [[mkEdge 1 pUsers [''id''] pOrders [''user_id'']],
         [mkEdge 2 pOrders [''id''] pOrderItems [''order_id''],
          mkEdge 4 pOrders [''id''] pOrderNotes [''order_id'']],
         [],
         []]\<rparr>"


definition graphEvents :: graph where
  "graphEvents =
     \<lparr>g_tables = [pEvents, pEvents2024, pEvents2025], g_reversedGraph = [[], [], []]\<rparr>"

definition graphUserEvents :: graph where
  "graphUserEvents =
     \<lparr>g_tables = [pUsers, pEvents, pEvents2024, pEvents2025],
      g_reversedGraph = [[mkEdge 7 pUsers [''id''] pEvents [''user_id'']], [], [], []]\<rparr>"

definition hashOnId :: transformerConfig where
  "hashOnId = \<lparr>tc_Name = ''Hash'', tc_Params = [(''column'', ''id''), (''engine'', ''hash'')],
               tc_When = [], tc_ApplyForReferences = True\<rparr>"

definition hashOn :: "string \<Rightarrow> transformerConfig" where
  "hashOn col = \<lparr>tc_Name = ''Hash'', tc_Params = [(''column'', col), (''engine'', ''hash'')],
                 tc_When = [], tc_ApplyForReferences = True\<rparr>"

definition uuidOnId :: transformerConfig where
  "uuidOnId = \<lparr>tc_Name = ''RandomUuid'', tc_Params = [(''column'', ''id'')],
               tc_When = [], tc_ApplyForReferences = True\<rparr>"


definition cfgUsersHash :: dtable where
  "cfgUsersHash = mkConfig ''users'' False [hashOnId]"

definition cfgUsersUuid :: dtable where
  "cfgUsersUuid = mkConfig ''users'' False [uuidOnId]"


text \<open>A registry: \<open>Hash\<close> may be applied for references and requires the hash engine;
  \<open>RandomUuid\<close> may be applied for references and does not require it; \<open>RandomString\<close>
  may not be applied for references.\<close>

definition columnParam :: parameterDefinition where
  "columnParam = \<lparr>pd_Name = ''column'', pd_IsColumn = True, pd_IsColumnContainer = False\<rparr>"

definition registryShop :: registry where
  "registryShop n =
     (if n = ''Hash'' then
        Some \<lparr>td_Meta = [(''AllowApplyForReferenced'', True), (''RequireHashEngineParameter'', True)],
              td_Parameters = [columnParam]\<rparr>
      else if n = ''RandomUuid'' then
        Some \<lparr>td_Meta = [(''AllowApplyForReferenced'', True), (''RequireHashEngineParameter'', False)],
              td_Parameters = [columnParam]\<rparr>
      else if n = ''RandomString'' then
        Some \<lparr>td_Meta = [(''AllowApplyForReferenced'', False)], td_Parameters = [columnParam]\<rparr>
      else if n = ''RandomDate'' then
        Some \<lparr>td_Meta = [], td_Parameters = [columnParam]\<rparr>
      else None)"

definition noPartitions :: catalog where
  "noPartitions = (\<lambda>_. Inr [])"

text \<open>A \<open>RandomDate\<close> transformer on \<open>events.ts\<close>, and the catalog of the partitions.\<close>

definition randomDateOnTs :: transformerConfig where
  "randomDateOnTs = \<lparr>tc_Name = ''RandomDate'',
                     tc_Params = [(''column'', ''ts''), (''min'', ''1970-01-01''), (''max'', ''2024-12-31'')],
                     tc_When = [], tc_ApplyForReferences = False\<rparr>"

definition cfgEvents :: dtable where
  "cfgEvents = mkConfig ''events'' True [randomDateOnTs]"

definition catalogEvents :: catalog where
  "catalogEvents oid = (if oid = 200 then Inr [201, 202] else Inr [])"

text \<open>A table with a column of a type that has no default transformer.\<close>

definition tabPlaces :: table where
  "tabPlaces = mkTable ''places'' 10 [mkColumn ''id'' ''int4'', mkColumn ''location'' ''geography'']
     [''id''] (CHR ''r'')"

definition tabDocs :: table where
  "tabDocs = mkTable ''docs'' 11
     [mkColumn ''id'' ''int4'', mkColumn ''title'' ''text'', mkColumn ''payload'' ''custom_type'']
     [''id''] (CHR ''r'')"

definition noRegistry :: registry where
  "noRegistry = (\<lambda>_. None)"

definition noJson :: jsonDecoder where
  "noJson = (\<lambda>_. None)"

definition initOk :: initTransformer where
  "initOk = (\<lambda>_ _. ([], None))"


definition noUnicode :: caseMapping where
  "noUnicode = (\<lambda>s. s)"


definition refBinding :: "tablePtr \<Rightarrow> string \<Rightarrow> tableConfigMapping" where
  "refBinding p col =
     \<lparr>tcm_entry = p, tcm_config = mkConfig (t_Name (entriesShop p)) False [hashOn col]\<rparr>"

definition heightShop :: "nat \<Rightarrow> nat" where
  "heightShop j = (if j = 0 then 2 else if j = 1 then 1 else if j = 3 then 1 else 0)"

text \<open>A \<open>Hash\<close> transformer configured on \<open>orders.user_id\<close> itself.\<close>

definition hashManual :: transformerConfig where
  "hashManual = \<lparr>tc_Name = ''Hash'', tc_Params = [(''column'', ''user_id''), (''engine'', ''random'')],
                 tc_When = [], tc_ApplyForReferences = False\<rparr>"

definition cfgOrdersManual :: dtable where
  "cfgOrdersManual = mkConfig ''orders'' False [hashManual]"
section \<open>Properties of the SQL fragment builder\<close>

lemma strings_Join_Cons:
  "strings_Join (x # xs) sep = x @ concat (map (\<lambda>y. sep @ y) xs)"
  by (induction xs arbitrary: x) simp_all

text \<open>
  Claim C2, as the code has it: an empty condition list gives \<open>WHERE TRUE\<close>; a non-empty
  one gives \<open>WHERE\<close> followed by the conditions, each wrapped in \<open>( ... )\<close>, joined by
  \<open>AND\<close>, and nothing after the last condition (no trailing \<open>AND TRUE\<close>).
\<close>

theorem generateWhereClause_shape:
  "generateWhereClause [] = ''WHERE TRUE'' \<and>
   generateWhereClause (c # cs) =
     ''WHERE ( '' @ c @ '' )'' @ concat (map (\<lambda>d. '' AND ( '' @ d @ '' )'') cs)"
  by (simp add: generateWhereClause_def strings_Join_Cons comp_def)

theorem generateWhereClause_shape_witness:
  "generateWhereClause [''active = true'', ''age > 18'']
     = ''WHERE ( active = true ) AND ( age > 18 )''"
  using generateWhereClause_shape [of "''active = true''" "[''age > 18'']"] by simp

text \<open>
  Claim C2 as stated fails on the single-table fixture: the clause is
  \<open>WHERE ( active = true )\<close>, without \<open>AND TRUE\<close>.
\<close>

theorem generateWhereClause_no_trailing_true:
  "generateWhereClause [''active = true''] = ''WHERE ( active = true )'' \<and>
   generateWhereClause [''active = true''] \<noteq> ''WHERE ( active = true ) AND TRUE''"
  by (simp add: generateWhereClause_def)

text \<open>
  Claim C9: \<open>shorten\<close> returns a name of at most 63 bytes unchanged; a longer name
  becomes its first 40 bytes, an underscore and the 10 hexadecimal digits of the first five
  bytes of its SHA-1 digest, 51 bytes in all; the result never exceeds 63 bytes; and it is
  a function of the name and of the name's digest only.
\<close>

lemma length_hex_bytes: "length (hex_bytes bs) = 2 * length bs"
  by (induction bs) (simp_all add: hex_bytes_def hex_byte_def)

lemma length_digest_bytes: "length (digest_bytes h) = 20"
  by (simp add: digest_bytes_def)

lemma hex_digit_range: "hex_digit n \<in> set ''0123456789abcdef''"
proof -
  have "n mod 16 < length ''0123456789abcdef''" by simp
  then show ?thesis unfolding hex_digit_def by (rule nth_mem)
qed

lemma set_hex_bytes: "set (hex_bytes bs) \<subseteq> set ''0123456789abcdef''"
  unfolding hex_bytes_def hex_byte_def using hex_digit_range by auto

theorem shorten_spec:
  "(length name \<le> 63 \<longrightarrow> shorten H name = name) \<and>
   (63 < length name \<longrightarrow>
      shorten H name = take 40 name @ ''_'' @ hex_bytes (take 5 (digest_bytes (H name))) \<and>
      length (hex_bytes (take 5 (digest_bytes (H name)))) = 10 \<and>
      set (hex_bytes (take 5 (digest_bytes (H name)))) \<subseteq> set ''0123456789abcdef'' \<and>
      length (shorten H name) = 51) \<and>
   length (shorten H name) \<le> 63 \<and>
   (H name = H' name \<longrightarrow> shorten H name = shorten H' name)"
proof -
  have a: "length name \<le> 63 \<longrightarrow> shorten H name = name"
    by (simp add: shorten_def maxLen_def)
  have l10: "length (hex_bytes (take 5 (digest_bytes (H name)))) = 10"
    by (simp add: length_hex_bytes length_digest_bytes)
  have b: "63 < length name \<longrightarrow>
      shorten H name = take 40 name @ ''_'' @ hex_bytes (take 5 (digest_bytes (H name)))"
    by (simp add: shorten_def maxLen_def Let_def)
  have c: "63 < length name \<longrightarrow> length (shorten H name) = 51"
    using b l10 by auto
  have d: "length (shorten H name) \<le> 63"
    using a c by (cases "length name \<le> 63") auto
  have e: "H name = H' name \<longrightarrow> shorten H name = shorten H' name"
    by (simp add: shorten_def)
  show ?thesis using a b c d e l10 set_hex_bytes by blast
qed

theorem shorten_spec_witness:
  "shorten (\<lambda>_. 0x0123456789abcdef0123456789abcdef01234567) (replicate 64 (CHR ''a''))
     = replicate 40 (CHR ''a'') @ ''_0123456789'' \<and>
   length (shorten (\<lambda>_. 0x0123456789abcdef0123456789abcdef01234567) (replicate 64 (CHR ''a''))) = 51 \<and>
   shorten (\<lambda>_. 0) ''public__a__ids'' = ''public__a__ids''"
proof -
  let ?H = "\<lambda>_::string. 0x0123456789abcdef0123456789abcdef01234567 :: 160 word"
  let ?n = "replicate 64 (CHR ''a'')"
  have long: "63 < length ?n" by simp
  have hx: "hex_bytes (take 5 (digest_bytes (?H ?n))) = ''0123456789''"
    by code_simp
  have short: "length ''public__a__ids'' \<le> 63" by simp
  from shorten_spec [of ?n ?H ?H] long hx
  have "shorten ?H ?n = take 40 ?n @ ''_0123456789''" and "length (shorten ?H ?n) = 51"
    by simp_all
  moreover from shorten_spec [of "''public__a__ids''" "\<lambda>_. 0" "\<lambda>_. 0"] short
  have "shorten (\<lambda>_. 0) ''public__a__ids'' = ''public__a__ids''" by blast
  ultimately show ?thesis by simp
qed

section \<open>Properties of the CTE query\<close>

text \<open>
  Claim C10: with more than one grouped cycle \<open>generateQuery\<close> panics; whenever it
  returns a query the component has at most one grouped cycle; and with at most one
  grouped cycle and a first cycle to read it does return a query.
\<close>

theorem generateQuery_total_iff:
  "(length (groupedCycles (cq_c c)) > 1 \<longrightarrow>
      generateQuery c t = Inl (Panic ''FIXME: found more than one grouped cycle'')) \<and>
   (generateQuery c t = Inr q \<longrightarrow> length (groupedCycles (cq_c c)) \<le> 1) \<and>
   (length (groupedCycles (cq_c c)) \<le> 1 \<and> cycles (cq_c c) \<noteq> [] \<longrightarrow>
      (\<exists>q'. generateQuery c t = Inr q'))"
  by (auto simp: generateQuery_def Let_def split: list.splits if_splits)

theorem generateQuery_total_iff_witness:
  "generateQuery (newCteQuery compTwoGroups) tabA
     = Inl (Panic ''FIXME: found more than one grouped cycle'') \<and>
   length (groupedCycles (cq_c (addItems (newCteQuery compAB) callsAB))) \<le> 1 \<and>
   generateQuery (addItems (newCteQuery compAB) callsAB) tabA = Inr queryAB"
proof -
  have two: "length (groupedCycles (cq_c (newCteQuery compTwoGroups))) > 1"
    by (simp add: newCteQuery_def compTwoGroups_def)
  have ret: "generateQuery (addItems (newCteQuery compAB) callsAB) tabA = Inr queryAB"
    by code_simp
  from generateQuery_total_iff [of "newCteQuery compTwoGroups" tabA] two
  have "generateQuery (newCteQuery compTwoGroups) tabA
         = Inl (Panic ''FIXME: found more than one grouped cycle'')" by blast
  moreover from generateQuery_total_iff [of "addItems (newCteQuery compAB) callsAB" tabA queryAB] ret
  have "length (groupedCycles (cq_c (addItems (newCteQuery compAB) callsAB))) \<le> 1" by blast
  ultimately show ?thesis using ret by simp
qed

text \<open>The items of a query filled by \<open>addItem\<close>: one per distinct name, with the body
  of the first call of that name.\<close>

lemma addItem_inv:
  assumes "\<forall>n. cq_names q n \<longleftrightarrow> n \<in> it_name ` set (cq_items q)"
    and "distinct (map it_name (cq_items q))"
    and "\<forall>it \<in> set (cq_items q). map_of calls (it_name it) = Some (it_query it)"
    and "it_name ` set (cq_items q) = fst ` set calls"
  shows "(\<forall>m. cq_names (addItem q n s) m \<longleftrightarrow> m \<in> it_name ` set (cq_items (addItem q n s))) \<and>
         distinct (map it_name (cq_items (addItem q n s))) \<and>
         (\<forall>it \<in> set (cq_items (addItem q n s)).
             map_of (calls @ [(n, s)]) (it_name it) = Some (it_query it)) \<and>
         it_name ` set (cq_items (addItem q n s)) = fst ` set (calls @ [(n, s)]) \<and>
         cq_c (addItem q n s) = cq_c q"
proof (cases "cq_names q n")
  case True
  then have same: "addItem q n s = q" by (simp add: addItem_def)
  from True assms(1) have nin: "n \<in> it_name ` set (cq_items q)" by simp
  have "\<forall>it \<in> set (cq_items q). map_of (calls @ [(n, s)]) (it_name it) = Some (it_query it)"
    using assms(3) by (auto simp: map_add_def)
  moreover have "it_name ` set (cq_items q) = fst ` set (calls @ [(n, s)])"
    using assms(4) nin by auto
  ultimately show ?thesis using assms(1,2) same by simp
next
  case False
  then have items: "cq_items (addItem q n s) = cq_items q @ [\<lparr>it_name = n, it_query = s\<rparr>]"
    and names: "cq_names (addItem q n s) = (cq_names q)(n := True)"
    and cmpt: "cq_c (addItem q n s) = cq_c q"
    by (simp_all add: addItem_def)
  from False assms(1) have nin: "n \<notin> it_name ` set (cq_items q)" by simp
  then have none: "map_of calls n = None"
    using assms(4) by (simp add: map_of_eq_None_iff)
  have a: "\<forall>m. cq_names (addItem q n s) m \<longleftrightarrow> m \<in> it_name ` set (cq_items (addItem q n s))"
    using assms(1) by (auto simp: items names)
  have b: "distinct (map it_name (cq_items (addItem q n s)))"
    using assms(2) nin by (simp add: items)
  have c: "\<forall>it \<in> set (cq_items (addItem q n s)).
             map_of (calls @ [(n, s)]) (it_name it) = Some (it_query it)"
    using assms(3) none by (auto simp: items map_add_def)
  have d: "it_name ` set (cq_items (addItem q n s)) = fst ` set (calls @ [(n, s)])"
    using assms(4) by (auto simp: items)
  show ?thesis using a b c d cmpt by blast
qed

lemma addItems_inv:
  "(\<forall>m. cq_names (addItems (newCteQuery cmpt) calls) m
        \<longleftrightarrow> m \<in> it_name ` set (cq_items (addItems (newCteQuery cmpt) calls))) \<and>
   distinct (map it_name (cq_items (addItems (newCteQuery cmpt) calls))) \<and>
   (\<forall>it \<in> set (cq_items (addItems (newCteQuery cmpt) calls)).
       map_of calls (it_name it) = Some (it_query it)) \<and>
   it_name ` set (cq_items (addItems (newCteQuery cmpt) calls)) = fst ` set calls \<and>
   cq_c (addItems (newCteQuery cmpt) calls) = cmpt"
proof (induction calls rule: rev_induct)
  case Nil
  show ?case by (simp add: addItems_def newCteQuery_def)
next
  case (snoc x xs)
  obtain n s where x: "x = (n, s)" by (cases x)
  have step: "addItems (newCteQuery cmpt) (xs @ [(n, s)]) = addItem (addItems (newCteQuery cmpt) xs) n s"
    by (simp add: addItems_def)
  from snoc have ih: "\<forall>m. cq_names (addItems (newCteQuery cmpt) xs) m
        \<longleftrightarrow> m \<in> it_name ` set (cq_items (addItems (newCteQuery cmpt) xs))"
     "distinct (map it_name (cq_items (addItems (newCteQuery cmpt) xs)))"
     "\<forall>it \<in> set (cq_items (addItems (newCteQuery cmpt) xs)).
       map_of xs (it_name it) = Some (it_query it)"
     "it_name ` set (cq_items (addItems (newCteQuery cmpt) xs)) = fst ` set xs"
     "cq_c (addItems (newCteQuery cmpt) xs) = cmpt"
    by blast+
  from addItem_inv [OF ih(1-4), of n s] ih(5)
  show ?case unfolding x step by simp
qed

text \<open>
  Claim C1, as the code has it.  For a cycle of two tables \<open>a\<close> and \<open>b\<close> and the target
  \<open>a\<close>, whatever CTEs the planner added: the query is one \<open>WITH RECURSIVE\<close> whose CTE
  list holds, in the order of their first addition, the added CTEs except the one named
  \<open>schema__b__ids\<close> for the other table of the cycle, followed by the final projection of
  \<open>a\<close>; every name was added at most once to the items, with the body of its first call.
\<close>

theorem generateQuery_two_table_cycle:
  assumes "t_Oid a \<noteq> t_Oid b"
    and "tl_table (e_from eab) = a" and "tl_table (e_from eba) = b"
    and "cycles cmpt = [eab, eba] # rest"
    and "length (groupedCycles cmpt) \<le> 1"
  shows "generateQuery (addItems (newCteQuery cmpt) calls) a =
           Inr (''WITH RECURSIVE ''
                @ strings_Join (map cteText (filter (\<lambda>it. it_name it \<noteq> idsName b)
                     (cq_items (addItems (newCteQuery cmpt) calls)))) '',''
                @ '' '' @ resultingQuery a) \<and>
         distinct (map it_name (cq_items (addItems (newCteQuery cmpt) calls))) \<and>
         it_name ` set (cq_items (addItems (newCteQuery cmpt) calls)) = fst ` set calls \<and>
         (\<forall>it \<in> set (cq_items (addItems (newCteQuery cmpt) calls)).
            map_of calls (it_name it) = Some (it_query it))"
proof -
  let ?q = "addItems (newCteQuery cmpt) calls"
  have c: "cq_c ?q = cmpt" using addItems_inv [of cmpt calls] by blast
  have ex: "excludedCteQueries [eab, eba] a = [idsName b]"
    using assms(1,2,3) by (simp add: excludedCteQueries_def)
  have "generateQuery ?q a =
           Inr (''WITH RECURSIVE ''
                @ strings_Join (map cteText (filter (\<lambda>it. it_name it \<noteq> idsName b)
                     (cq_items ?q))) '',''
                @ '' '' @ resultingQuery a)"
    using assms(4,5) ex by (simp add: generateQuery_def c Let_def)
  then show ?thesis using addItems_inv [of cmpt calls] by blast
qed

theorem generateQuery_two_table_cycle_witness:
  \<open>generateQuery (addItems (newCteQuery compAB) callsAB) tabA =
     Inr (''WITH RECURSIVE '' @ strings_Join ['' public__a__ids AS (SELECT A UNION SELECT A2)''] '',''
          @ '' '' @ resultingQuery tabA) \<and>
   resultingQuery tabA = ''SELECT "public"."a"."id", "public"."a"."b_id" FROM "public"."a" WHERE ("public"."a"."id") IN (SELECT "public__a__ids"."id" FROM "public__a__ids")'' \<and>
   map it_name (cq_items (addItems (newCteQuery compAB) callsAB)) = [''public__a__ids'', ''public__b__ids'']\<close>
proof -
  have h1: "t_Oid tabA \<noteq> t_Oid tabB" by (simp add: tabA_def tabB_def)
  have h2: "tl_table (e_from edgeAB) = tabA" by (simp add: edgeAB_def)
  have h3: "tl_table (e_from edgeBA) = tabB" by (simp add: edgeBA_def)
  have h4: "cycles compAB = [edgeAB, edgeBA] # []" by (simp add: compAB_def)
  have h5: "length (groupedCycles compAB) \<le> 1" by (simp add: compAB_def)
  have items: "cq_items (addItems (newCteQuery compAB) callsAB) =
      [\<lparr>it_name = ''public__a__ids'', it_query = ''SELECT A UNION SELECT A2''\<rparr>,
       \<lparr>it_name = ''public__b__ids'', it_query = ''SELECT B UNION SELECT B2''\<rparr>]"
    by (simp add: addItems_def callsAB_def addItem_def newCteQuery_def)
  have kept: "map cteText (filter (\<lambda>it. it_name it \<noteq> idsName tabB)
                (cq_items (addItems (newCteQuery compAB) callsAB)))
              = ['' public__a__ids AS (SELECT A UNION SELECT A2)'']"
    unfolding items by (simp add: idsName_def tabB_def cteText_def)
  have proj: \<open>resultingQuery tabA = ''SELECT "public"."a"."id", "public"."a"."b_id" FROM "public"."a" WHERE ("public"."a"."id") IN (SELECT "public__a__ids"."id" FROM "public__a__ids")''\<close>
    by code_simp
  from generateQuery_two_table_cycle [OF h1 h2 h3 h4 h5, of callsAB]
  show ?thesis unfolding kept using proj items by simp
qed

text \<open>
  Claim C1 as stated fails on the fixture: the planner added both \<open>public__a__ids\<close> and
  \<open>public__b__ids\<close>, and the query for \<open>a\<close> holds the first only; neither the name nor
  the body of \<open>public__b__ids\<close> occurs in it.
\<close>

theorem generateQuery_excludes_other_table:
  "generateQuery (addItems (newCteQuery compAB) callsAB) tabA = Inr queryAB \<and>
   \<not> sublist ''public__b__ids'' queryAB \<and>
   \<not> sublist ''SELECT B UNION SELECT B2'' queryAB"
  by code_simp

section \<open>Properties of \<open>buildWithClause\<close>\<close>

lemma scanBody_fold:
  assumes "distinct ms" and "set (k_dependsOn st n) \<inter> set ms = {}"
  shows "k_dependsOn (scanBody cteDefs ms n st)
           = (k_dependsOn st)(n := k_dependsOn st n @ filter (cteDependsOn cteDefs n) ms) \<and>
         k_inDegree (scanBody cteDefs ms n st)
           = (k_inDegree st)(n := k_inDegree st n + int (length (filter (cteDependsOn cteDefs n) ms))) \<and>
         k_zero (scanBody cteDefs ms n st) = k_zero st \<and>
         k_ordered (scanBody cteDefs ms n st) = k_ordered st"
  using assms
proof (induction ms arbitrary: st)
  case Nil
  show ?case by (simp add: scanBody_def)
next
  case (Cons m ms)
  let ?f = "\<lambda>m st. if n = m then st
                   else if strings_Contains (cteBody cteDefs n) (dq @ m @ dq)
                        then addDependency n m st
                        else st"
  let ?st1 = "?f m st"
  have unfold: "scanBody cteDefs (m # ms) n st = scanBody cteDefs ms n ?st1"
    by (simp add: scanBody_def)
  have mnot: "m \<notin> set (k_dependsOn st n)" using Cons.prems by auto
  show ?case
  proof (cases "cteDependsOn cteDefs n m")
    case True
    then have st1: "?st1 = st\<lparr>k_dependsOn := (k_dependsOn st)(n := k_dependsOn st n @ [m]),
                              k_inDegree := (k_inDegree st)(n := k_inDegree st n + 1)\<rparr>"
      using mnot by (simp add: cteDependsOn_def addDependency_def)
    have pre: "distinct ms" "set (k_dependsOn ?st1 n) \<inter> set ms = {}"
      using Cons.prems unfolding st1 by auto
    from Cons.IH [OF pre] show ?thesis
      unfolding unfold using True unfolding st1 by (auto simp: fun_eq_iff)
  next
    case False
    then have st1: "?st1 = st" by (auto simp: cteDependsOn_def)
    have pre: "distinct ms" "set (k_dependsOn st n) \<inter> set ms = {}"
      using Cons.prems by auto
    from Cons.IH [OF pre] show ?thesis
      unfolding unfold st1 using False by (auto simp: fun_eq_iff)
  qed
qed

lemma collect_fold:
  assumes "distinct names" and "distinct ns" and "\<forall>x \<in> set ns. k_dependsOn st x = []"
  shows "k_dependsOn (fold (scanBody cteDefs names) ns st)
           = (\<lambda>x. if x \<in> set ns then filter (cteDependsOn cteDefs x) names else k_dependsOn st x) \<and>
         k_inDegree (fold (scanBody cteDefs names) ns st)
           = (\<lambda>x. if x \<in> set ns then k_inDegree st x + int (length (filter (cteDependsOn cteDefs x) names))
                   else k_inDegree st x) \<and>
         k_zero (fold (scanBody cteDefs names) ns st) = k_zero st \<and>
         k_ordered (fold (scanBody cteDefs names) ns st) = k_ordered st"
  using assms(2,3)
proof (induction ns arbitrary: st)
  case Nil
  show ?case by simp
next
  case (Cons n ns)
  let ?st1 = "scanBody cteDefs names n st"
  have e: "set (k_dependsOn st n) \<inter> set names = {}" using Cons.prems by simp
  note sb = scanBody_fold [OF assms(1) e, of cteDefs]
  have d0: "k_dependsOn st n = []" using Cons.prems by simp
  have pre: "distinct ns" "\<forall>x \<in> set ns. k_dependsOn ?st1 x = []"
    using Cons.prems sb by auto
  from Cons.IH [OF pre] sb d0 Cons.prems(1) show ?case
    by (auto simp: fun_eq_iff)
qed

lemma collectDependencies_eq:
  assumes "distinct names"
  shows "k_dependsOn (collectDependencies cteDefs names)
           = (\<lambda>x. if x \<in> set names then filter (cteDependsOn cteDefs x) names else []) \<and>
         k_inDegree (collectDependencies cteDefs names)
           = (\<lambda>x. if x \<in> set names then int (length (filter (cteDependsOn cteDefs x) names)) else 0) \<and>
         k_zero (collectDependencies cteDefs names) = [] \<and>
         k_ordered (collectDependencies cteDefs names) = []"
proof -
  let ?init = "\<lparr>k_dependsOn = (\<lambda>_. []), k_inDegree = (\<lambda>_. 0), k_zero = [], k_ordered = []\<rparr>"
  have e: "\<forall>x \<in> set names. k_dependsOn ?init x = []" by simp
  from collect_fold [OF assms assms e, of cteDefs]
  show ?thesis unfolding collectDependencies_def by (simp cong: if_cong)
qed

lemma sort_cong_mset: "mset xs = mset ys \<Longrightarrow> sort xs = sort ys"
  by (rule properties_for_sort) simp_all

lemma release_fold:
  assumes "distinct ms" and "sorted (k_zero st)"
  shows "k_dependsOn (fold (release n) ms st)
           = (\<lambda>x. if x \<in> set ms then removeAll n (k_dependsOn st x) else k_dependsOn st x) \<and>
         k_inDegree (fold (release n) ms st)
           = (\<lambda>x. if x \<in> set ms \<and> n \<in> set (k_dependsOn st x) then k_inDegree st x - 1
                   else k_inDegree st x) \<and>
         k_zero (fold (release n) ms st)
           = sort (k_zero st @ filter (\<lambda>m. n \<in> set (k_dependsOn st m) \<and> k_inDegree st m - 1 = 0) ms) \<and>
         k_ordered (fold (release n) ms st) = k_ordered st"
  using assms
proof (induction ms arbitrary: st)
  case Nil
  then show ?case by (simp add: sort_key_id_if_sorted)
next
  case (Cons m ms)
  let ?st1 = "release n m st"
  let ?Q = "\<lambda>st m. n \<in> set (k_dependsOn st m) \<and> k_inDegree st m - 1 = 0"
  have dep1: "k_dependsOn ?st1 = (k_dependsOn st)(m := removeAll n (k_dependsOn st m))"
    by (auto simp: release_def Let_def fun_eq_iff)
  have ind1: "k_inDegree ?st1 = (if n \<in> set (k_dependsOn st m)
                 then (k_inDegree st)(m := k_inDegree st m - 1) else k_inDegree st)"
    by (auto simp: release_def Let_def)
  have zero1: "k_zero ?st1 = (if ?Q st m then sort (k_zero st @ [m]) else k_zero st)"
    by (auto simp: release_def Let_def)
  have ord1: "k_ordered ?st1 = k_ordered st"
    by (auto simp: release_def Let_def)
  have sorted1: "sorted (k_zero ?st1)" using Cons.prems(2) zero1 by simp
  have dist: "distinct ms" and mnot: "m \<notin> set ms" using Cons.prems(1) by auto
  note ih = Cons.IH [OF dist sorted1]
  have Qeq: "filter (?Q ?st1) ms = filter (?Q st) ms"
    using mnot by (intro filter_cong) (auto simp: dep1 ind1)
  have z: "sort (k_zero ?st1 @ filter (?Q st) ms) = sort (k_zero st @ filter (?Q st) (m # ms))"
    by (rule sort_cong_mset) (simp add: zero1)
  show ?case
    using ih mnot unfolding Qeq z
    by (auto simp: fun_eq_iff dep1 ind1 ord1)
qed

lemma fold_release_order:
  assumes "distinct ms" and "distinct ms'" and "set ms = set ms'" and "sorted (k_zero st)"
  shows "fold (release n) ms st = fold (release n) ms' st"
proof -
  have m: "mset ms = mset ms'" using assms(1,2,3) by (simp add: set_eq_iff_mset_eq_distinct)
  have "mset (filter (\<lambda>m. n \<in> set (k_dependsOn st m) \<and> k_inDegree st m - 1 = 0) ms)
      = mset (filter (\<lambda>m. n \<in> set (k_dependsOn st m) \<and> k_inDegree st m - 1 = 0) ms')"
    using m by (metis mset_filter)
  then have z: "sort (k_zero st @ filter (\<lambda>m. n \<in> set (k_dependsOn st m) \<and> k_inDegree st m - 1 = 0) ms)
      = sort (k_zero st @ filter (\<lambda>m. n \<in> set (k_dependsOn st m) \<and> k_inDegree st m - 1 = 0) ms')"
    by (intro sort_cong_mset) simp
  show ?thesis
    using release_fold [OF assms(1,4), of n] release_fold [OF assms(2,4), of n] z assms(3)
    by (intro kahn.equality) (auto simp: release_def)
qed


lemma kahnInv_ordered_released:
  assumes "kahnInv cteDefs names st" and "m \<in> set (k_ordered st)"
  shows "k_dependsOn st m = []"
proof -
  from assms(2) obtain i where i: "i < length (k_ordered st)" "k_ordered st ! i = m"
    by (auto simp: in_set_conv_nth)
  from assms(1) i have "cteDeps cteDefs names m \<subseteq> set (take i (k_ordered st))"
    unfolding kahnInv_def by blast
  then have sub: "cteDeps cteDefs names m \<subseteq> set (k_ordered st)"
    using set_take_subset by fastforce
  from assms have "m \<in> set names" unfolding kahnInv_def by blast
  with assms(1) have "set (k_dependsOn st m) = cteDeps cteDefs names m - set (k_ordered st)"
    unfolding kahnInv_def by blast
  with sub have "set (k_dependsOn st m) = {}" by auto
  then show ?thesis by simp
qed

lemma kahnInv_step:
  assumes dn: "distinct names" and inv: "kahnInv cteDefs names st" and z: "k_zero st = n # rest"
  shows "kahnInv cteDefs names
           (fold (release n) names (st\<lparr>k_zero := rest, k_ordered := k_ordered st @ [n]\<rparr>))"
proof -
  let ?O = "k_ordered st"
  let ?st0 = "st\<lparr>k_zero := rest, k_ordered := ?O @ [n]\<rparr>"
  let ?st' = "fold (release n) names ?st0"
  let ?D = "cteDeps cteDefs names"
  let ?new = "filter (\<lambda>m. n \<in> set (k_dependsOn st m) \<and> k_inDegree st m - 1 = 0) names"
  from inv have dO: "distinct ?O" and subO: "set ?O \<subseteq> set names"
    and deps: "\<And>m. m \<in> set names \<Longrightarrow> set (k_dependsOn st m) = ?D m - set ?O"
    and ddep: "\<And>m. m \<in> set names \<Longrightarrow> distinct (k_dependsOn st m)"
    and ind: "\<And>m. m \<in> set names \<Longrightarrow> k_inDegree st m = int (length (k_dependsOn st m))"
    and sz: "sorted (k_zero st)" and dz: "distinct (k_zero st)"
    and setz: "set (k_zero st) = {m \<in> set names. m \<notin> set ?O \<and> k_dependsOn st m = []}"
    and least: "\<And>i. i < length ?O \<Longrightarrow> ?D (?O ! i) \<subseteq> set (take i ?O) \<and>
        (\<forall>m \<in> set names - set (take i ?O). ?D m \<subseteq> set (take i ?O) \<longrightarrow> ?O ! i \<le> m)"
    unfolding kahnInv_def by blast+
  have nz: "n \<in> set (k_zero st)" using z by simp
  then have nN: "n \<in> set names" and nO: "n \<notin> set ?O" and ndep: "k_dependsOn st n = []"
    using setz by auto
  have srest: "sorted rest" and drest: "distinct rest" and nrest: "n \<notin> set rest"
    and nle: "\<And>m. m \<in> set rest \<Longrightarrow> n \<le> m"
    using sz dz z by auto
  have "sorted (k_zero ?st0)" using srest by simp
  from release_fold [OF dn this, of n]
  have dep': "\<And>m. m \<in> set names \<Longrightarrow> k_dependsOn ?st' m = removeAll n (k_dependsOn st m)"
    and ind': "\<And>m. m \<in> set names \<Longrightarrow> k_inDegree ?st' m =
                 (if n \<in> set (k_dependsOn st m) then k_inDegree st m - 1 else k_inDegree st m)"
    and zero': "k_zero ?st' = sort (rest @ ?new)"
    and ord': "k_ordered ?st' = ?O @ [n]"
    by simp_all
  have c1: "distinct (k_ordered ?st') \<and> set (k_ordered ?st') \<subseteq> set names"
    using dO subO nN nO by (simp add: ord')
  have c2: "\<forall>m \<in> set names.
        set (k_dependsOn ?st' m) = ?D m - set (k_ordered ?st') \<and>
        distinct (k_dependsOn ?st' m) \<and>
        k_inDegree ?st' m = int (length (k_dependsOn ?st' m))"
  proof
    fix m assume m: "m \<in> set names"
    have a: "set (k_dependsOn ?st' m) = ?D m - set (k_ordered ?st')"
      using deps [OF m] by (auto simp: dep' [OF m] ord')
    have b: "distinct (k_dependsOn ?st' m)"
      using ddep [OF m] by (simp add: dep' [OF m] distinct_removeAll)
    have c: "k_inDegree ?st' m = int (length (k_dependsOn ?st' m))"
    proof (cases "n \<in> set (k_dependsOn st m)")
      case True
      then have "length (removeAll n (k_dependsOn st m)) = length (k_dependsOn st m) - 1"
        using ddep [OF m] by (simp add: distinct_remove1_removeAll [symmetric] length_remove1)
      moreover have "1 \<le> length (k_dependsOn st m)"
        using True by (cases "k_dependsOn st m") auto
      then have "int (length (k_dependsOn st m) - 1) = int (length (k_dependsOn st m)) - 1"
        by simp
      ultimately show ?thesis using True ind [OF m] by (simp add: dep' [OF m] ind' [OF m])
    next
      case False
      then show ?thesis using ind [OF m] by (simp add: dep' [OF m] ind' [OF m])
    qed
    from a b c show "set (k_dependsOn ?st' m) = ?D m - set (k_ordered ?st') \<and>
        distinct (k_dependsOn ?st' m) \<and>
        k_inDegree ?st' m = int (length (k_dependsOn ?st' m))" by blast
  qed
  have newchar: "\<And>m. m \<in> set names \<Longrightarrow>
      (n \<in> set (k_dependsOn st m) \<and> k_inDegree st m - 1 = 0) \<longleftrightarrow> k_dependsOn st m = [n]"
  proof -
    fix m assume m: "m \<in> set names"
    show "(n \<in> set (k_dependsOn st m) \<and> k_inDegree st m - 1 = 0) \<longleftrightarrow> k_dependsOn st m = [n]"
    proof
      assume h: "n \<in> set (k_dependsOn st m) \<and> k_inDegree st m - 1 = 0"
      then have "length (k_dependsOn st m) = 1" using ind [OF m] by simp
      then obtain x where "k_dependsOn st m = [x]"
        by (cases "k_dependsOn st m") auto
      with h show "k_dependsOn st m = [n]" by simp
    next
      assume "k_dependsOn st m = [n]"
      then show "n \<in> set (k_dependsOn st m) \<and> k_inDegree st m - 1 = 0"
        using ind [OF m] by simp
    qed
  qed
  have setnew: "set ?new = {m \<in> set names. k_dependsOn st m = [n]}"
    using newchar by auto
  have c3: "sorted (k_zero ?st') \<and> distinct (k_zero ?st')"
  proof -
    have "distinct ?new" using dn by simp
    moreover have "set rest \<inter> set ?new = {}"
    proof -
      have "\<And>m. m \<in> set rest \<Longrightarrow> k_dependsOn st m = []" using setz z by auto
      then show ?thesis using setnew by auto
    qed
    ultimately have "distinct (rest @ ?new)" using drest by simp
    then show ?thesis by (simp add: zero')
  qed
  have c4: "set (k_zero ?st') = {m \<in> set names. m \<notin> set (k_ordered ?st') \<and> k_dependsOn ?st' m = []}"
  proof (intro set_eqI iffI)
    fix m assume "m \<in> set (k_zero ?st')"
    then consider "m \<in> set rest" | "m \<in> set ?new" by (auto simp: zero')
    then show "m \<in> {m \<in> set names. m \<notin> set (k_ordered ?st') \<and> k_dependsOn ?st' m = []}"
    proof cases
      case 1
      then have "m \<in> set (k_zero st)" using z by simp
      then have "m \<in> set names" "m \<notin> set ?O" "k_dependsOn st m = []" using setz by auto
      moreover have "m \<noteq> n" using 1 nrest by auto
      ultimately show ?thesis by (simp add: ord' dep')
    next
      case 2
      then have m: "m \<in> set names" and d: "k_dependsOn st m = [n]" using setnew by auto
      have "m \<notin> set ?O" using kahnInv_ordered_released [OF inv, of m] d by auto
      moreover have "m \<noteq> n" using d ndep by auto
      ultimately show ?thesis using m d by (simp add: ord' dep')
    qed
  next
    fix m assume "m \<in> {m \<in> set names. m \<notin> set (k_ordered ?st') \<and> k_dependsOn ?st' m = []}"
    then have m: "m \<in> set names" and mO: "m \<notin> set ?O" and mn: "m \<noteq> n"
      and e: "removeAll n (k_dependsOn st m) = []"
      by (auto simp: ord' dep')
    show "m \<in> set (k_zero ?st')"
    proof (cases "k_dependsOn st m = []")
      case True
      then have "m \<in> set (k_zero st)" using setz m mO by simp
      then have "m \<in> set rest" using z mn by simp
      then show ?thesis by (simp add: zero')
    next
      case False
      from e have "set (removeAll n (k_dependsOn st m)) = {}" by simp
      then have sub: "set (k_dependsOn st m) \<subseteq> {n}" by auto
      from False obtain x ys where xs: "k_dependsOn st m = x # ys"
        by (cases "k_dependsOn st m") auto
      with sub have "x = n" and "set ys \<subseteq> {n}" by auto
      moreover from ddep [OF m] xs have "x \<notin> set ys" by simp
      ultimately have "ys = []" by (cases ys) auto
      with xs \<open>x = n\<close> have "k_dependsOn st m = [n]" by simp
      then have "m \<in> set ?new" using setnew m by simp
      then show ?thesis by (simp add: zero')
    qed
  qed
  have c5: "\<forall>i < length (k_ordered ?st').
        ?D (k_ordered ?st' ! i) \<subseteq> set (take i (k_ordered ?st')) \<and>
        (\<forall>m \<in> set names - set (take i (k_ordered ?st')).
           ?D m \<subseteq> set (take i (k_ordered ?st')) \<longrightarrow> k_ordered ?st' ! i \<le> m)"
  proof (intro allI impI)
    fix i assume i: "i < length (k_ordered ?st')"
    show "?D (k_ordered ?st' ! i) \<subseteq> set (take i (k_ordered ?st')) \<and>
        (\<forall>m \<in> set names - set (take i (k_ordered ?st')).
           ?D m \<subseteq> set (take i (k_ordered ?st')) \<longrightarrow> k_ordered ?st' ! i \<le> m)"
    proof (cases "i < length ?O")
      case True
      then show ?thesis using least [OF True] by (simp add: ord' nth_append)
    next
      case False
      then have il: "i = length ?O" using i by (simp add: ord')
      have a: "?D n \<subseteq> set ?O" using deps [OF nN] ndep by auto
      have b: "\<forall>m \<in> set names - set ?O. ?D m \<subseteq> set ?O \<longrightarrow> n \<le> m"
      proof (intro ballI impI)
        fix m assume m: "m \<in> set names - set ?O" and s: "?D m \<subseteq> set ?O"
        then have "set (k_dependsOn st m) = {}" using deps [of m] by auto
        then have "k_dependsOn st m = []" by simp
        then have "m \<in> set (k_zero st)" using setz m by simp
        then show "n \<le> m" using z nle by auto
      qed
      show ?thesis using a b by (simp add: il ord')
    qed
  qed
  show ?thesis unfolding kahnInv_def using c1 c2 c3 c4 c5 by blast
qed

lemma kahnLoop_inv:
  "distinct names \<Longrightarrow> kahnInv cteDefs names st \<Longrightarrow>
     kahnInv cteDefs names (kahnLoop names st) \<and> k_zero (kahnLoop names st) = []"
proof (induction names st rule: kahnLoop.induct)
  case (1 names st)
  show ?case
  proof (cases "k_zero st")
    case Nil
    then have "kahnLoop names st = st" by (simp add: kahnLoop.simps)
    then show ?thesis using 1 Nil by simp
  next
    case (Cons n rest)
    let ?st' = "fold (release n) names (st\<lparr>k_zero := rest, k_ordered := k_ordered st @ [n]\<rparr>)"
    have e: "kahnLoop names st = kahnLoop names ?st'"
      using Cons by (subst kahnLoop.simps) simp
    have "kahnInv cteDefs names ?st'"
      using kahnInv_step [OF "1.prems"(1,2) Cons] .
    from "1.IH" [OF Cons "1.prems"(1) this] show ?thesis unfolding e .
  qed
qed


lemma kahnInit_inv:
  assumes "distinct names"
  shows "kahnInv cteDefs names (kahnInit cteDefs names)"
proof -
  let ?c = "collectDependencies cteDefs names"
  let ?st = "kahnInit cteDefs names"
  from collectDependencies_eq [OF assms, of cteDefs]
  have cdep: "k_dependsOn ?c = (\<lambda>x. if x \<in> set names then filter (cteDependsOn cteDefs x) names else [])"
    and cind: "k_inDegree ?c = (\<lambda>x. if x \<in> set names
                 then int (length (filter (cteDependsOn cteDefs x) names)) else 0)"
    and cord: "k_ordered ?c = []"
    by blast+
  have dep: "\<And>m. m \<in> set names \<Longrightarrow> k_dependsOn ?st m = filter (cteDependsOn cteDefs m) names"
    by (simp add: kahnInit_def cdep)
  have ind: "\<And>m. m \<in> set names \<Longrightarrow> k_inDegree ?st m = int (length (k_dependsOn ?st m))"
    by (simp add: kahnInit_def cdep cind)
  have ord: "k_ordered ?st = []"
    by (simp add: kahnInit_def cord)
  have zero: "k_zero ?st = sort (filter (\<lambda>n. k_inDegree ?c n = 0) names)"
    by (simp add: kahnInit_def)
  have fz: "filter (\<lambda>n. k_inDegree ?c n = 0) names
              = filter (\<lambda>n. filter (cteDependsOn cteDefs n) names = []) names"
    by (rule filter_cong) (simp_all add: cind)
  have c3: "sorted (k_zero ?st) \<and> distinct (k_zero ?st)"
    using assms by (simp add: zero)
  have c2: "\<forall>m \<in> set names.
        set (k_dependsOn ?st m) = cteDeps cteDefs names m - set (k_ordered ?st) \<and>
        distinct (k_dependsOn ?st m) \<and>
        k_inDegree ?st m = int (length (k_dependsOn ?st m))"
  proof
    fix m assume m: "m \<in> set names"
    have "set (k_dependsOn ?st m) = cteDeps cteDefs names m - set (k_ordered ?st)"
      unfolding dep [OF m] ord cteDeps_def by auto
    moreover have "distinct (k_dependsOn ?st m)"
      unfolding dep [OF m] using assms by simp
    ultimately show "set (k_dependsOn ?st m) = cteDeps cteDefs names m - set (k_ordered ?st) \<and>
        distinct (k_dependsOn ?st m) \<and>
        k_inDegree ?st m = int (length (k_dependsOn ?st m))"
      using ind [OF m] by (simp only: simp_thms)
  qed
  have c4: "set (k_zero ?st) = {m \<in> set names. m \<notin> set (k_ordered ?st) \<and> k_dependsOn ?st m = []}"
  proof -
    have "set (k_zero ?st) = {m \<in> set names. filter (cteDependsOn cteDefs m) names = []}"
      unfolding zero fz by simp
    also have "\<dots> = {m \<in> set names. m \<notin> set (k_ordered ?st) \<and> k_dependsOn ?st m = []}"
      unfolding ord using dep by auto
    finally show ?thesis .
  qed
  have c5: "\<forall>i < length (k_ordered ?st).
        cteDeps cteDefs names (k_ordered ?st ! i) \<subseteq> set (take i (k_ordered ?st)) \<and>
        (\<forall>m \<in> set names - set (take i (k_ordered ?st)).
           cteDeps cteDefs names m \<subseteq> set (take i (k_ordered ?st)) \<longrightarrow> k_ordered ?st ! i \<le> m)"
    unfolding ord by simp
  have c1: "distinct (k_ordered ?st) \<and> set (k_ordered ?st) \<subseteq> set names"
    unfolding ord by simp
  show ?thesis unfolding kahnInv_def
    using c1 c2 c3 c4 c5 by (simp only: simp_thms)
qed

lemma kahn_final_acyclic:
  assumes dn: "distinct names" and sn: "set names = fst ` set cteDefs"
    and inv: "kahnInv cteDefs names st" and z: "k_zero st = []"
  shows "acyclic (cteRel cteDefs) \<longleftrightarrow> set (k_ordered st) = set names"
proof
  let ?O = "k_ordered st"
  let ?R = "cteRel cteDefs"
  assume ac: "acyclic ?R"
  have "?R \<subseteq> set names \<times> set names" unfolding cteRel_def sn by auto
  then have "finite ?R" by (rule finite_subset) simp
  then have wf: "wf ?R" using ac by (rule finite_acyclic_wf)
  from inv have subO: "set ?O \<subseteq> set names"
    and deps: "\<And>m. m \<in> set names \<Longrightarrow> set (k_dependsOn st m) = cteDeps cteDefs names m - set ?O"
    and setz: "set (k_zero st) = {m \<in> set names. m \<notin> set ?O \<and> k_dependsOn st m = []}"
    unfolding kahnInv_def by blast+
  show "set ?O = set names"
  proof (rule ccontr)
    assume "set ?O \<noteq> set names"
    then obtain x where x: "x \<in> set names - set ?O" using subO by auto
    from wfE_min [OF wf x] obtain zz where zz: "zz \<in> set names - set ?O"
      and mn: "\<And>y. (y, zz) \<in> ?R \<Longrightarrow> y \<notin> set names - set ?O" by blast
    have "k_dependsOn st zz \<noteq> []" using setz z zz by auto
    then obtain b where b: "b \<in> set (k_dependsOn st zz)" by (cases "k_dependsOn st zz") auto
    with deps [of zz] zz have bd: "b \<in> cteDeps cteDefs names zz" and bO: "b \<notin> set ?O" by auto
    then have "(b, zz) \<in> ?R" and "b \<in> set names"
      using zz by (auto simp: cteDeps_def cteRel_def sn)
    with mn bO show False by blast
  qed
next
  let ?O = "k_ordered st"
  let ?R = "cteRel cteDefs"
  assume all: "set ?O = set names"
  from inv have dO: "distinct ?O"
    and least: "\<And>i. i < length ?O \<Longrightarrow> cteDeps cteDefs names (?O ! i) \<subseteq> set (take i ?O)"
    unfolding kahnInv_def by blast+
  define pos where "pos x = length (takeWhile (\<lambda>y. y \<noteq> x) ?O)" for x
  have pos_nth: "\<And>i. i < length ?O \<Longrightarrow> pos (?O ! i) = i"
  proof -
    fix i assume i: "i < length ?O"
    have "takeWhile (\<lambda>y. y \<noteq> ?O ! i) ?O = take i ?O"
    proof (rule takeWhile_eq_take_P_nth)
      fix j assume "j < i" "j < length ?O"
      then show "?O ! j \<noteq> ?O ! i" using dO i by (simp add: nth_eq_iff_index_eq)
    next
      show "\<not> ?O ! i \<noteq> ?O ! i" by simp
    qed
    then show "pos (?O ! i) = i" using i by (simp add: pos_def)
  qed
  have "acyclic (?R\<inverse>)"
  proof (rule acyclicI_order [where f = pos])
    fix a b assume "(a, b) \<in> ?R\<inverse>"
    then have a: "a \<in> set names" and bd: "b \<in> cteDeps cteDefs names a"
      by (auto simp: cteRel_def cteDeps_def sn)
    from a all have "a \<in> set ?O" by simp
    then obtain j where j: "j < length ?O" "?O ! j = a" by (auto simp: in_set_conv_nth)
    from least [OF j(1)] bd j(2) have "b \<in> set (take j ?O)" by auto
    then obtain i where i: "i < length (take j ?O)" "take j ?O ! i = b"
      by (auto simp: in_set_conv_nth)
    then have "i < j" "?O ! i = b" "i < length ?O" using j(1) by auto
    then have "pos b = i" using pos_nth by blast
    moreover have "pos a = j" using pos_nth j by blast
    ultimately show "pos b < pos a" using \<open>i < j\<close> by simp
  qed
  then show "acyclic ?R" by (simp only: acyclic_converse)
qed

lemma withOrder_eq:
  "withOrder cteDefs =
     (let names = sort (map fst cteDefs);
          ordered = k_ordered (kahnLoop names (kahnInit cteDefs names))
      in if length ordered \<noteq> length names then names else ordered)"
  by (simp add: withOrder_def kahnInit_def Let_def)

text \<open>
  Claim C8, as the code has it.  For a map with the names \<open>fst ` set cteDefs\<close>, and
  with \<open>a\<close> depending on \<open>b\<close> when \<open>a \<noteq> b\<close> and the body of \<open>a\<close> contains \<open>b\<close>
  in double quotes: the WITH list is a permutation of the names; when the dependency
  relation is acyclic, every CTE stands before each CTE that references it, and at every
  position stands the alphabetically least name among those not yet listed whose
  dependencies are all listed; when the relation has a cycle, the list is the sorted list
  of the names.
\<close>

theorem buildWithClause_order:
  assumes "distinct (map fst cteDefs)"
  shows "mset (withOrder cteDefs) = mset (map fst cteDefs) \<and>
         (acyclic (cteRel cteDefs) \<longrightarrow>
            (\<forall>a b. (b, a) \<in> cteRel cteDefs \<longrightarrow>
               (\<exists>i j. i < j \<and> j < length (withOrder cteDefs) \<and>
                       withOrder cteDefs ! i = b \<and> withOrder cteDefs ! j = a)) \<and>
            (\<forall>i < length (withOrder cteDefs).
               \<forall>m \<in> fst ` set cteDefs - set (take i (withOrder cteDefs)).
                 (\<forall>b. (b, m) \<in> cteRel cteDefs \<longrightarrow> b \<in> set (take i (withOrder cteDefs)))
                 \<longrightarrow> withOrder cteDefs ! i \<le> m)) \<and>
         (\<not> acyclic (cteRel cteDefs) \<longrightarrow> withOrder cteDefs = sort (map fst cteDefs)) \<and>
         buildWithClause cteDefs =
           (if cteDefs = [] then []
            else ''WITH '' @ strings_Join
                   (map (\<lambda>name. dq @ name @ dq @ '' AS ('' @ cteBody cteDefs name @ '')'')
                      (withOrder cteDefs)) '', '')"
proof -
  let ?N = "sort (map fst cteDefs)"
  let ?st = "kahnLoop ?N (kahnInit cteDefs ?N)"
  let ?O = "k_ordered ?st"
  let ?R = "cteRel cteDefs"
  have dn: "distinct ?N" using assms by simp
  have sn: "set ?N = fst ` set cteDefs" by simp
  from kahnLoop_inv [OF dn kahnInit_inv [OF dn, of cteDefs]]
  have inv: "kahnInv cteDefs ?N ?st" and z: "k_zero ?st = []" by blast+
  from inv have dO: "distinct ?O" and subO: "set ?O \<subseteq> set ?N"
    and least: "\<And>i. i < length ?O \<Longrightarrow> cteDeps cteDefs ?N (?O ! i) \<subseteq> set (take i ?O) \<and>
        (\<forall>m \<in> set ?N - set (take i ?O). cteDeps cteDefs ?N m \<subseteq> set (take i ?O) \<longrightarrow> ?O ! i \<le> m)"
    unfolding kahnInv_def by blast+
  note ac = kahn_final_acyclic [OF dn sn inv z]
  have cO: "card (set ?O) = length ?O" by (rule distinct_card [OF dO])
  have cN: "card (set ?N) = length ?N" by (rule distinct_card [OF dn])
  have len: "length ?O = length ?N \<longleftrightarrow> set ?O = set ?N"
  proof
    assume "length ?O = length ?N"
    then have "card (set ?O) = card (set ?N)" using cO cN by (simp only:)
    moreover have "finite (set ?N)" by (rule finite_set)
    ultimately show "set ?O = set ?N" using subO by (rule_tac card_subset_eq)
  next
    assume "set ?O = set ?N"
    then have "card (set ?O) = card (set ?N)" by (simp only:)
    then show "length ?O = length ?N" using cO cN by (simp only:)
  qed
  have wo: "withOrder cteDefs = (if length ?O \<noteq> length ?N then ?N else ?O)"
    by (simp add: withOrder_eq Let_def)
  have deps_rel: "\<And>m. m \<in> set ?N \<Longrightarrow> cteDeps cteDefs ?N m = {b. (b, m) \<in> ?R}"
    by (auto simp: cteDeps_def cteRel_def)
  have p1: "mset (withOrder cteDefs) = mset (map fst cteDefs)"
  proof (cases "length ?O = length ?N")
    case True
    then have "set ?O = set ?N" using len by (simp only:)
    then have "mset ?O = mset ?N"
      using set_eq_iff_mset_eq_distinct [OF dO dn] by (simp only:)
    moreover have "mset ?N = mset (map fst cteDefs)" by simp
    moreover have "withOrder cteDefs = ?O" using True by (simp only: wo if_False simp_thms)
    ultimately show ?thesis by (simp only:)
  next
    case False
    then have "withOrder cteDefs = ?N" by (simp only: wo if_True simp_thms)
    then show ?thesis by simp
  qed
  have p2: "acyclic ?R \<longrightarrow>
            (\<forall>a b. (b, a) \<in> ?R \<longrightarrow>
               (\<exists>i j. i < j \<and> j < length (withOrder cteDefs) \<and>
                       withOrder cteDefs ! i = b \<and> withOrder cteDefs ! j = a)) \<and>
            (\<forall>i < length (withOrder cteDefs).
               \<forall>m \<in> fst ` set cteDefs - set (take i (withOrder cteDefs)).
                 (\<forall>b. (b, m) \<in> ?R \<longrightarrow> b \<in> set (take i (withOrder cteDefs)))
                 \<longrightarrow> withOrder cteDefs ! i \<le> m)"
  proof
    assume "acyclic ?R"
    then have all: "set ?O = set ?N" using ac by simp
    then have w: "withOrder cteDefs = ?O" using len by (simp add: wo)
    have topo: "\<forall>a b. (b, a) \<in> ?R \<longrightarrow> (\<exists>i j. i < j \<and> j < length ?O \<and> ?O ! i = b \<and> ?O ! j = a)"
    proof (intro allI impI)
      fix a b assume r: "(b, a) \<in> ?R"
      then have a: "a \<in> set ?N" by (auto simp: cteRel_def)
      with all have "a \<in> set ?O" by simp
      then obtain j where j: "j < length ?O" "?O ! j = a" by (auto simp: in_set_conv_nth)
      have "b \<in> cteDeps cteDefs ?N a" using r deps_rel [OF a] by simp
      with least [OF j(1)] j(2) have "b \<in> set (take j ?O)" by auto
      then obtain i where i: "i < length (take j ?O)" "take j ?O ! i = b"
        by (auto simp: in_set_conv_nth)
      then have "i < j" "?O ! i = b" using j(1) by auto
      with j show "\<exists>i j. i < j \<and> j < length ?O \<and> ?O ! i = b \<and> ?O ! j = a" by blast
    qed
    have ties: "\<forall>i < length ?O. \<forall>m \<in> fst ` set cteDefs - set (take i ?O).
                 (\<forall>b. (b, m) \<in> ?R \<longrightarrow> b \<in> set (take i ?O)) \<longrightarrow> ?O ! i \<le> m"
    proof (intro allI impI ballI)
      fix i m assume i: "i < length ?O" and m: "m \<in> fst ` set cteDefs - set (take i ?O)"
        and h: "\<forall>b. (b, m) \<in> ?R \<longrightarrow> b \<in> set (take i ?O)"
      from m have mN: "m \<in> set ?N" by simp
      then have "cteDeps cteDefs ?N m \<subseteq> set (take i ?O)" using h deps_rel [OF mN] by auto
      with least [OF i] m mN show "?O ! i \<le> m" by auto
    qed
    show "(\<forall>a b. (b, a) \<in> ?R \<longrightarrow>
               (\<exists>i j. i < j \<and> j < length (withOrder cteDefs) \<and>
                       withOrder cteDefs ! i = b \<and> withOrder cteDefs ! j = a)) \<and>
            (\<forall>i < length (withOrder cteDefs).
               \<forall>m \<in> fst ` set cteDefs - set (take i (withOrder cteDefs)).
                 (\<forall>b. (b, m) \<in> ?R \<longrightarrow> b \<in> set (take i (withOrder cteDefs)))
                 \<longrightarrow> withOrder cteDefs ! i \<le> m)"
      unfolding w by (rule conjI [OF topo ties])
  qed
  have p3: "\<not> acyclic ?R \<longrightarrow> withOrder cteDefs = ?N"
    using ac len by (simp add: wo)
  have p4: "buildWithClause cteDefs =
           (if cteDefs = [] then []
            else ''WITH '' @ strings_Join
                   (map (\<lambda>name. dq @ name @ dq @ '' AS ('' @ cteBody cteDefs name @ '')'')
                      (withOrder cteDefs)) '', '')"
    by (simp add: buildWithClause_def)
  show ?thesis by (rule conjI [OF p1 conjI [OF p2 conjI [OF p3 p4]]])
qed


theorem buildWithClause_order_witness:
  "withOrder defsChain = [''b'', ''a'', ''c''] \<and>
   acyclic (cteRel defsChain) \<and>
   (\<exists>i j. i < j \<and> j < length (withOrder defsChain) \<and>
          withOrder defsChain ! i = ''b'' \<and> withOrder defsChain ! j = ''a'') \<and>
   \<not> acyclic (cteRel defsCycle) \<and>
   withOrder defsCycle = [''a'', ''b'']"
proof -
  have d1: "distinct (map fst defsChain)" by (simp add: defsChain_def)
  have d2: "distinct (map fst defsCycle)" by (simp add: defsCycle_def)
  have r1: "cteRel defsChain = {(''b'', ''a'')}"
    by (auto simp: cteRel_def cteDependsOn_def defsChain_def strings_Contains_def cteBody_def
          dq_def sublist_code)
  have ac1: "acyclic (cteRel defsChain)"
    unfolding r1 by (rule acyclicI_order [where f = "\<lambda>x. if x = ''b'' then 1 else (0::nat)"]) auto
  have ab: "(''a'', ''b'') \<in> cteRel defsCycle" and ba: "(''b'', ''a'') \<in> cteRel defsCycle"
    by (simp_all add: cteRel_def cteDependsOn_def defsCycle_def strings_Contains_def cteBody_def
          dq_def sublist_code)
  have "(''a'', ''a'') \<in> (cteRel defsCycle)\<^sup>+"
    using ab ba by (rule trancl_trans [OF r_into_trancl r_into_trancl])
  then have ac2: "\<not> acyclic (cteRel defsCycle)" unfolding acyclic_def by blast
  have e1: "withOrder defsChain = [''b'', ''a'', ''c'']" by code_simp
  have s2: "sort (map fst defsCycle) = [''a'', ''b'']" by code_simp
  from buildWithClause_order [OF d1] ac1
  have "\<forall>a b. (b, a) \<in> cteRel defsChain \<longrightarrow>
          (\<exists>i j. i < j \<and> j < length (withOrder defsChain) \<and>
                  withOrder defsChain ! i = b \<and> withOrder defsChain ! j = a)"
    by blast
  then have t1: "\<exists>i j. i < j \<and> j < length (withOrder defsChain) \<and>
          withOrder defsChain ! i = ''b'' \<and> withOrder defsChain ! j = ''a''"
    unfolding r1 by blast
  from buildWithClause_order [OF d2] ac2
  have "withOrder defsCycle = sort (map fst defsCycle)" by blast
  then have e2: "withOrder defsCycle = [''a'', ''b'']" unfolding s2 .
  show ?thesis by (rule conjI [OF e1 conjI [OF ac1 conjI [OF t1 conjI [OF ac2 e2]]]])
qed

text \<open>
  Claim C8 as stated counts every quoted occurrence of a name as a dependency.  In
  \<open>defsSelf\<close> the body of \<open>a\<close> contains \<open>"a"\<close>, so that relation has a cycle; the list
  is nevertheless not the alphabetical one: the code skips a CTE's reference to itself and
  puts \<open>b\<close>, which \<open>a\<close> references, first.
\<close>

theorem buildWithClause_self_reference:
  "strings_Contains (cteBody defsSelf ''a'') (dq @ ''a'' @ dq) \<and>
   sort (map fst defsSelf) = [''a'', ''b''] \<and>
   withOrder defsSelf = [''b'', ''a'']"
  by code_simp

section \<open>Properties of the configuration builder\<close>

subsection \<open>Default transformers\<close>

lemma defaultTransformers_unsupported:
  assumes "c \<in> set cs" and "col_Name c \<notin> set defined" and "col_Name c \<notin> set skip"
    and "\<not> col_IsGenerated c" and "col_Name c \<notin> set (t_PrimaryKey t)"
    and "GetDefaultTransformerForColumn unicodeToLower c = Inl e"
  shows "\<exists>msg. defaultTransformers unicodeToLower t defined skip cs = Inl msg"
  using assms(1)
proof (induction cs)
  case Nil
  then show ?case by simp
next
  case (Cons x xs)
  show ?case
  proof (cases "x = c")
    case True
    then show ?thesis using assms(2-6) by simp
  next
    case False
    then have "c \<in> set xs" using Cons.prems by simp
    then obtain msg where "defaultTransformers unicodeToLower t defined skip xs = Inl msg"
      using Cons.IH by blast
    then show ?thesis by (simp split: sum.splits)
  qed
qed

text \<open>
  Claim C6, as the code has it.  With \<open>auto_anonymize\<close> on, a column that is not
  generated, not in the primary key, not skip-listed and not named by a configured
  transformer, and whose type has no default transformer, makes
  \<open>initAndSetupTransformers\<close> return a non-nil error, with no validation warning and no
  transformer initialised.
\<close>

theorem auto_anonymize_unsupported_type_is_error:
  assumes "c \<in> set (t_Columns t)"
    and "\<not> col_IsGenerated c"
    and "col_Name c \<notin> set (t_PrimaryKey t)"
    and "col_Name c \<notin> set (d_SkipAutoAnonymize tableConfig)"
    and "\<forall>defined. definedColumns unmarshal defaultRegistry (d_Transformers tableConfig) = Inr defined
           \<longrightarrow> col_Name c \<notin> set defined"
    and "GetDefaultTransformerForColumn unicodeToLower c = Inl e"
  shows "ir_err (initAndSetupTransformers unicodeToLower unmarshal defaultRegistry init t tableConfig True) \<noteq> None \<and>
         ir_warnings (initAndSetupTransformers unicodeToLower unmarshal defaultRegistry init t tableConfig True) = [] \<and>
         ir_contexts (initAndSetupTransformers unicodeToLower unmarshal defaultRegistry init t tableConfig True) = []"
proof -
  have "\<exists>msg. generateDefaultTransformersForUndefinedColumns unicodeToLower unmarshal defaultRegistry t tableConfig = Inl msg"
  proof (cases "definedColumns unmarshal defaultRegistry (d_Transformers tableConfig)")
    case (Inl m)
    then show ?thesis by (simp add: generateDefaultTransformersForUndefinedColumns_def)
  next
    case (Inr defined)
    with assms(5) have "col_Name c \<notin> set defined" by blast
    from defaultTransformers_unsupported [OF assms(1) this assms(4,2,3,6)]
    show ?thesis using Inr by (simp add: generateDefaultTransformersForUndefinedColumns_def)
  qed
  then show ?thesis by (auto simp: initAndSetupTransformers_def)
qed

theorem auto_anonymize_unsupported_type_is_error_witness:
  "ir_err (initAndSetupTransformers noUnicode noJson registryShop initOk tabDocs
            (mkConfig ''docs'' False [hashOn ''title'']) True) \<noteq> None \<and>
   ir_warnings (initAndSetupTransformers noUnicode noJson registryShop initOk tabDocs
            (mkConfig ''docs'' False [hashOn ''title'']) True) = [] \<and>
   ir_contexts (initAndSetupTransformers noUnicode noJson registryShop initOk tabDocs
            (mkConfig ''docs'' False [hashOn ''title'']) True) = []"
proof -
  let ?c = "mkColumn ''payload'' ''custom_type''"
  let ?cfg = "mkConfig ''docs'' False [hashOn ''title'']"
  have h1: "?c \<in> set (t_Columns tabDocs)" by (simp add: tabDocs_def mkTable_def)
  have h2: "\<not> col_IsGenerated ?c" by (simp add: mkColumn_def)
  have h3: "col_Name ?c \<notin> set (t_PrimaryKey tabDocs)" by (simp add: tabDocs_def mkTable_def mkColumn_def)
  have h4: "col_Name ?c \<notin> set (d_SkipAutoAnonymize ?cfg)" by (simp add: mkConfig_def)
  have d: "definedColumns noJson registryShop (d_Transformers ?cfg) = Inr [''title'']"
    by code_simp
  have h5: "\<forall>defined. definedColumns noJson registryShop (d_Transformers ?cfg) = Inr defined
           \<longrightarrow> col_Name ?c \<notin> set defined"
    unfolding d by (simp add: mkColumn_def)
  have h6: "GetDefaultTransformerForColumn noUnicode ?c =
     Inl ''unable to get default transformer for column payload and type custom_type''"
    by code_simp
  from auto_anonymize_unsupported_type_is_error [OF h1 h2 h3 h4 h5 h6, where init = initOk]
  show ?thesis .
qed

text \<open>
  Claim C6 as stated fails: for the column \<open>location\<close> of type \<open>geography\<close> the
  function returns no warning at all, and a non-nil error.
\<close>

theorem auto_anonymize_returns_error:
  "ir_warnings (initAndSetupTransformers noUnicode noJson noRegistry initOk tabPlaces (mkConfig ''places'' False []) True) = [] \<and>
   ir_err (initAndSetupTransformers noUnicode noJson noRegistry initOk tabPlaces (mkConfig ''places'' False []) True) =
     Some ''cannot generate default transformers for undefined columns: error getting default transformer for column location: unable to get default transformer for column location and type geography''"
  by code_simp

subsection \<open>The reference walk\<close>

lemma slices_IndexFunc_Some:
  "slices_IndexFunc xs f = Some i \<Longrightarrow> i < length xs \<and> f (xs ! i)"
proof (induction xs arbitrary: i)
  case Nil
  then show ?case by simp
next
  case (Cons x xs)
  show ?case
  proof (cases "f x")
    case True
    then show ?thesis using Cons.prems by simp
  next
    case False
    then obtain j where j: "slices_IndexFunc xs f = Some j" "i = Suc j"
      using Cons.prems by auto
    from Cons.IH [OF j(1)] j(2) show ?thesis by simp
  qed
qed

lemma addTransformer_entries:
  "tcm_entry ` set (addTransformerToReferenceTable es r trConf ov res)
     \<subseteq> insert (gl_table (ge_to r)) (tcm_entry ` set res)"
proof (cases "slices_IndexFunc res
             (\<lambda>tcm. t_Name (es (tcm_entry tcm)) = t_Name (es (gl_table (ge_to r))) \<and>
                    t_Schema (es (tcm_entry tcm)) = t_Schema (es (gl_table (ge_to r))))")
  case None
  then show ?thesis by (auto simp: addTransformerToReferenceTable_def)
next
  case (Some i)
  let ?x = "(res ! i)\<lparr>tcm_config :=
                   (tcm_config (res ! i))
                     \<lparr>d_Transformers := d_Transformers (tcm_config (res ! i)) @ [trConf]\<rparr>\<rparr>"
  have "map tcm_entry (res[i := ?x]) = (map tcm_entry res)[i := tcm_entry (res ! i)]"
    by (simp add: map_update)
  also have "\<dots> = map tcm_entry res"
    by (cases "i < length res") (simp_all add: list_update_same_conv list_update_beyond)
  finally have "set (map tcm_entry (res[i := ?x])) = set (map tcm_entry res)" by simp
  then show ?thesis using Some by (auto simp: addTransformerToReferenceTable_def)
qed

lemma processReference_entries:
  "processReference es r C rts allTrans (ws, res) = Ok (ws', res') \<Longrightarrow>
     tcm_entry ` set res' \<subseteq> insert (gl_table (ge_to r)) (tcm_entry ` set res)"
proof (induction rts arbitrary: ws res)
  case Nil
  then show ?case by auto
next
  case (Cons rt rts)
  show ?case
  proof (cases "tm_attNum rt \<ge> length (gl_keys (ge_to r))")
    case True
    then show ?thesis using Cons.prems by (simp add: Let_def)
  next
    case False
    let ?col = "gl_keys (ge_to r) ! tm_attNum rt"
    show ?thesis
    proof (cases "checkTransformerAlreadyExists allTrans (t_Schema (es (gl_table (ge_to r))))
                     (t_Name (es (gl_table (ge_to r)))) (tc_Name (tm_cfg rt)) ?col")
      case (Some conf)
      then have "processReference es r C rts allTrans (ws, res) = Ok (ws', res')"
        using Cons.prems False by (simp add: Let_def)
      then show ?thesis by (rule Cons.IH)
    next
      case None
      let ?res1 = "addTransformerToReferenceTable es r (inheritedTransformer rt ?col)
                     (getColumnTypeOverride C (tm_columnName rt)) res"
      let ?ws1 = "ws @ validateDoesInheritedConditionHaveAllColumns (es (gl_table (ge_to r)))
                          (inheritedTransformer rt ?col)"
      have "processReference es r C rts allTrans (?ws1, ?res1) = Ok (ws', res')"
        using Cons.prems False None by (simp add: Let_def)
      then have "tcm_entry ` set res' \<subseteq> insert (gl_table (ge_to r)) (tcm_entry ` set ?res1)"
        by (rule Cons.IH)
      then show ?thesis using addTransformer_entries [of es r "inheritedTransformer rt ?col"
            "getColumnTypeOverride C (tm_columnName rt)" res] by blast
    qed
  qed
qed

lemma dfsEdges_Cons_OkE:
  assumes "dfsEdges dfs es g C rts allTrans chk (r # rs) (ws, res) = Some (Ok (ws', res'))"
  obtains (skip) "chk" "isEndToEndPKFK es g (gl_table (ge_from r)) = Ok False"
      "dfsEdges dfs es g C rts allTrans chk rs (ws, res) = Some (Ok (ws', res'))"
  | (go) ws1 res1 ws2 res2 where "chk \<longrightarrow> isEndToEndPKFK es g (gl_table (ge_from r)) = Ok True"
      "processReference es r C rts allTrans (ws, res) = Ok (ws1, res1)"
      "dfs (gl_table (ge_to r)) res1 = Some (Ok (ws2, res2))"
      "dfsEdges dfs es g C rts allTrans chk rs (ws1 @ ws2, res2) = Some (Ok (ws', res'))"
proof (cases "if chk then isEndToEndPKFK es g (gl_table (ge_from r)) else Ok True")
  case (Ok b)
  show ?thesis
  proof (cases b)
    case False
    with Ok have "chk" "isEndToEndPKFK es g (gl_table (ge_from r)) = Ok False"
      by (auto split: if_splits)
    moreover have "dfsEdges dfs es g C rts allTrans chk rs (ws, res) = Some (Ok (ws', res'))"
      using assms Ok False by simp
    ultimately show ?thesis by (rule skip)
  next
    case True
    with Ok have g: "chk \<longrightarrow> isEndToEndPKFK es g (gl_table (ge_from r)) = Ok True"
      by (auto split: if_splits)
    show ?thesis
    proof (cases "processReference es r C rts allTrans (ws, res)")
      case (Ok p)
      obtain ws1 res1 where p: "p = (ws1, res1)" by (cases p)
      note pr = Ok [unfolded p]
      show ?thesis
      proof (cases "dfs (gl_table (ge_to r)) res1")
        case None
        then show ?thesis using assms \<open>(if chk then isEndToEndPKFK es g (gl_table (ge_from r)) else Ok True) = Ok b\<close> True pr
          by simp
      next
        case (Some out)
        show ?thesis
        proof (cases out)
          case (Ok q)
          obtain ws2 res2 where q: "q = (ws2, res2)" by (cases q)
          have d: "dfs (gl_table (ge_to r)) res1 = Some (Ok (ws2, res2))"
            using Some Ok q by simp
          have "dfsEdges dfs es g C rts allTrans chk rs (ws1 @ ws2, res2) = Some (Ok (ws', res'))"
            using assms \<open>(if chk then isEndToEndPKFK es g (gl_table (ge_from r)) else Ok True) = Ok b\<close> True pr d
            by simp
          with g pr d show ?thesis by (rule go)
        next
          case (Err e)
          then show ?thesis using assms \<open>(if chk then isEndToEndPKFK es g (gl_table (ge_from r)) else Ok True) = Ok b\<close> True pr Some
            by simp
        next
          case (Panicked e)
          then show ?thesis using assms \<open>(if chk then isEndToEndPKFK es g (gl_table (ge_from r)) else Ok True) = Ok b\<close> True pr Some
            by simp
        qed
      qed
    next
      case (Err e)
      then show ?thesis using assms \<open>(if chk then isEndToEndPKFK es g (gl_table (ge_from r)) else Ok True) = Ok b\<close> True
        by simp
    next
      case (Panicked e)
      then show ?thesis using assms \<open>(if chk then isEndToEndPKFK es g (gl_table (ge_from r)) else Ok True) = Ok b\<close> True
        by simp
    qed
  qed
next
  case (Err e)
  then show ?thesis using assms by simp
next
  case (Panicked e)
  then show ?thesis using assms by simp
qed

lemma buildRefs_Suc_OkE:
  assumes "buildRefsWithEndToEndDfs (Suc depth) es tab C rts g allTrans res chk = Some (Ok (ws', res'))"
  obtains (notfound) "findTableIndex es g tab = None" "res' = res"
  | (found) k where "findTableIndex es g tab = Some k" "k < length (g_reversedGraph g)"
      "dfsEdges (\<lambda>child res'. buildRefsWithEndToEndDfs depth es child C rts g allTrans res' True)
         es g C rts allTrans chk (g_reversedGraph g ! k) ([], res) = Some (Ok (ws', res'))"
proof (cases "findTableIndex es g tab")
  case None
  then have "res' = res" using assms by simp
  with None show ?thesis by (rule notfound)
next
  case (Some k)
  show ?thesis
  proof (cases "k < length (g_reversedGraph g)")
    case True
    then have "dfsEdges (\<lambda>child res'. buildRefsWithEndToEndDfs depth es child C rts g allTrans res' True)
         es g C rts allTrans chk (g_reversedGraph g ! k) ([], res) = Some (Ok (ws', res'))"
      using assms Some by simp
    with Some True show ?thesis by (rule found)
  next
    case False
    then show ?thesis using assms Some by simp
  qed
qed

lemma subset_chain3:
  "S1 \<subseteq> S0 \<union> A \<Longrightarrow> S2 \<subseteq> S1 \<union> A \<Longrightarrow> S3 \<subseteq> S2 \<union> A \<Longrightarrow> S3 \<subseteq> S0 \<union> A"
  by blast

lemma subset_insert_into:
  "S1 \<subseteq> insert x S0 \<Longrightarrow> x \<in> A \<Longrightarrow> S1 \<subseteq> S0 \<union> A"
  by blast

lemma dfsEdges_entries:
  assumes dfs: "\<And>child res0 ws1 res1. dfs child res0 = Some (Ok (ws1, res1)) \<Longrightarrow>
                  tcm_entry ` set res1 \<subseteq> tcm_entry ` set res0 \<union> A"
  shows "\<forall>r \<in> set rs. gl_table (ge_to r) \<in> A \<Longrightarrow>
         dfsEdges dfs es g C rts allTrans chk rs (ws, res) = Some (Ok (ws', res')) \<Longrightarrow>
         tcm_entry ` set res' \<subseteq> tcm_entry ` set res \<union> A"
proof (induction rs arbitrary: ws res)
  case Nil
  then show ?case by auto
next
  case (Cons r rs)
  have rA: "gl_table (ge_to r) \<in> A" and rsA: "\<forall>r \<in> set rs. gl_table (ge_to r) \<in> A"
    using Cons.prems(1) by auto
  from Cons.prems(2) show ?case
  proof (cases rule: dfsEdges_Cons_OkE)
    case skip
    from Cons.IH [OF rsA skip(3)] show ?thesis .
  next
    case (go ws1 res1 ws2 res2)
    have a: "tcm_entry ` set res1 \<subseteq> tcm_entry ` set res \<union> A"
      by (rule subset_insert_into [OF processReference_entries [OF go(2)] rA])
    have b: "tcm_entry ` set res2 \<subseteq> tcm_entry ` set res1 \<union> A"
      using dfs [OF go(3)] .
    have c: "tcm_entry ` set res' \<subseteq> tcm_entry ` set res2 \<union> A"
      using Cons.IH [OF rsA go(4)] .
    show ?thesis by (rule subset_chain3 [OF a b c])
  qed
qed

lemma buildRefs_entries:
  "buildRefsWithEndToEndDfs depth es tab C rts g allTrans res chk = Some (Ok (ws', res')) \<Longrightarrow>
     tcm_entry ` set res' \<subseteq> tcm_entry ` set res \<union> graphChildren g"
proof (induction depth arbitrary: tab res chk ws' res')
  case 0
  then show ?case by simp
next
  case (Suc depth)
  from Suc.prems show ?case
  proof (cases rule: buildRefs_Suc_OkE)
    case notfound
    then show ?thesis by auto
  next
    case (found k)
    have mem: "\<forall>r \<in> set (g_reversedGraph g ! k). gl_table (ge_to r) \<in> graphChildren g"
      unfolding graphChildren_def using found(2) nth_mem by blast
    show ?thesis
      by (rule dfsEdges_entries [OF _ mem found(3)]) (rule Suc.IH)
  qed
qed

lemma getRefTables_entries:
  "getRefTables depth es T C g allTrans = Some (Ok (res, ws)) \<Longrightarrow>
     tcm_entry ` set res \<subseteq> graphChildren g"
proof -
  assume run: "getRefTables depth es T C g allTrans = Some (Ok (res, ws))"
  then have "buildRefsWithEndToEndDfs depth es T C (collectRootTransformers es T C) g allTrans [] False
               = Some (Ok (ws, res))"
    by (simp add: getRefTables_def Let_def split: option.splits outcome.splits prod.splits)
  from buildRefs_entries [OF this] show ?thesis by simp
qed

lemma addTransformer_adds:
  "bindsTransformer es (gl_table (ge_to r)) trConf (addTransformerToReferenceTable es r trConf ov res)"
proof (cases "slices_IndexFunc res
             (\<lambda>tcm. t_Name (es (tcm_entry tcm)) = t_Name (es (gl_table (ge_to r))) \<and>
                    t_Schema (es (tcm_entry tcm)) = t_Schema (es (gl_table (ge_to r))))")
  case None
  then show ?thesis by (simp add: addTransformerToReferenceTable_def bindsTransformer_def)
next
  case (Some i)
  let ?x = "(res ! i)\<lparr>tcm_config :=
                   (tcm_config (res ! i))
                     \<lparr>d_Transformers := d_Transformers (tcm_config (res ! i)) @ [trConf]\<rparr>\<rparr>"
  from slices_IndexFunc_Some [OF Some] have i: "i < length res"
    and m: "t_Name (es (tcm_entry (res ! i))) = t_Name (es (gl_table (ge_to r)))"
           "t_Schema (es (tcm_entry (res ! i))) = t_Schema (es (gl_table (ge_to r)))" by simp_all
  have "?x \<in> set (res[i := ?x])" using i by (simp add: set_update_memI)
  moreover have "t_Name (es (tcm_entry ?x)) = t_Name (es (gl_table (ge_to r)))"
    "t_Schema (es (tcm_entry ?x)) = t_Schema (es (gl_table (ge_to r)))"
    "trConf \<in> set (d_Transformers (tcm_config ?x))" using m by simp_all
  ultimately have "bindsTransformer es (gl_table (ge_to r)) trConf (res[i := ?x])"
    unfolding bindsTransformer_def by blast
  then show ?thesis using Some by (simp add: addTransformerToReferenceTable_def)
qed

lemma addTransformer_keeps:
  assumes "bindsTransformer es child x res"
  shows "bindsTransformer es child x (addTransformerToReferenceTable es r trConf ov res)"
proof (cases "slices_IndexFunc res
             (\<lambda>tcm. t_Name (es (tcm_entry tcm)) = t_Name (es (gl_table (ge_to r))) \<and>
                    t_Schema (es (tcm_entry tcm)) = t_Schema (es (gl_table (ge_to r))))")
  case None
  then show ?thesis using assms by (auto simp: addTransformerToReferenceTable_def bindsTransformer_def)
next
  case (Some i)
  let ?x = "(res ! i)\<lparr>tcm_config :=
                   (tcm_config (res ! i))
                     \<lparr>d_Transformers := d_Transformers (tcm_config (res ! i)) @ [trConf]\<rparr>\<rparr>"
  from slices_IndexFunc_Some [OF Some] have i: "i < length res" by simp
  from assms obtain b0 where b0: "b0 \<in> set res" "t_Name (es (tcm_entry b0)) = t_Name (es child)"
      "t_Schema (es (tcm_entry b0)) = t_Schema (es child)" "x \<in> set (d_Transformers (tcm_config b0))"
    unfolding bindsTransformer_def by blast
  from b0(1) obtain j where j: "j < length res" and bj: "res ! j = b0"
    unfolding in_set_conv_nth by blast
  have b: "t_Name (es (tcm_entry (res ! j))) = t_Name (es child)" "t_Schema (es (tcm_entry (res ! j))) = t_Schema (es child)"
           "x \<in> set (d_Transformers (tcm_config (res ! j)))"
    using b0(2-4) unfolding bj by simp_all
  have jl: "j < length (res[i := ?x])" using j by simp
  have "t_Name (es (tcm_entry (res[i := ?x] ! j))) = t_Name (es child) \<and>
        t_Schema (es (tcm_entry (res[i := ?x] ! j))) = t_Schema (es child) \<and>
        x \<in> set (d_Transformers (tcm_config (res[i := ?x] ! j)))"
    using b i j by (cases "i = j") simp_all
  then have "bindsTransformer es child x (res[i := ?x])"
    unfolding bindsTransformer_def using nth_mem [OF jl] by blast
  then show ?thesis using Some by (simp add: addTransformerToReferenceTable_def)
qed

lemma processReference_Cons_OkE:
  assumes "processReference es r C (rt # rts) allTrans (ws, res) = Ok (ws', res')"
  obtains (manual) conf where "tm_attNum rt < length (gl_keys (ge_to r))"
      "checkTransformerAlreadyExists allTrans (t_Schema (es (gl_table (ge_to r))))
         (t_Name (es (gl_table (ge_to r)))) (tc_Name (tm_cfg rt)) (gl_keys (ge_to r) ! tm_attNum rt) = Some conf"
      "processReference es r C rts allTrans (ws, res) = Ok (ws', res')"
  | (added) "tm_attNum rt < length (gl_keys (ge_to r))"
      "checkTransformerAlreadyExists allTrans (t_Schema (es (gl_table (ge_to r))))
         (t_Name (es (gl_table (ge_to r)))) (tc_Name (tm_cfg rt)) (gl_keys (ge_to r) ! tm_attNum rt) = None"
      "processReference es r C rts allTrans
         (ws @ validateDoesInheritedConditionHaveAllColumns (es (gl_table (ge_to r)))
                 (inheritedTransformer rt (gl_keys (ge_to r) ! tm_attNum rt)),
          addTransformerToReferenceTable es r (inheritedTransformer rt (gl_keys (ge_to r) ! tm_attNum rt))
            (getColumnTypeOverride C (tm_columnName rt)) res) = Ok (ws', res')"
proof (cases "tm_attNum rt \<ge> length (gl_keys (ge_to r))")
  case True
  then show ?thesis using assms by (simp add: Let_def)
next
  case False
  then have lt: "tm_attNum rt < length (gl_keys (ge_to r))" by simp
  show ?thesis
  proof (cases "checkTransformerAlreadyExists allTrans (t_Schema (es (gl_table (ge_to r))))
         (t_Name (es (gl_table (ge_to r)))) (tc_Name (tm_cfg rt)) (gl_keys (ge_to r) ! tm_attNum rt)")
    case (Some conf)
    then have "processReference es r C rts allTrans (ws, res) = Ok (ws', res')"
      using assms False by (simp add: Let_def)
    with lt Some show ?thesis by (rule manual)
  next
    case None
    then have "processReference es r C rts allTrans
         (ws @ validateDoesInheritedConditionHaveAllColumns (es (gl_table (ge_to r)))
                 (inheritedTransformer rt (gl_keys (ge_to r) ! tm_attNum rt)),
          addTransformerToReferenceTable es r (inheritedTransformer rt (gl_keys (ge_to r) ! tm_attNum rt))
            (getColumnTypeOverride C (tm_columnName rt)) res) = Ok (ws', res')"
      using assms False by (simp add: Let_def)
    with lt None show ?thesis by (rule added)
  qed
qed

lemma processReference_keeps:
  "bindsTransformer es child x res \<Longrightarrow>
   processReference es r C rts allTrans (ws, res) = Ok (ws', res') \<Longrightarrow>
   bindsTransformer es child x res'"
proof (induction rts arbitrary: ws res)
  case Nil
  then show ?case by simp
next
  case (Cons rt rts)
  from Cons.prems(2) show ?case
  proof (cases rule: processReference_Cons_OkE)
    case (manual conf)
    from Cons.IH [OF Cons.prems(1) manual(3)] show ?thesis .
  next
    case added
    from Cons.IH [OF addTransformer_keeps [OF Cons.prems(1)] added(3)] show ?thesis .
  qed
qed

lemma processReference_adds:
  assumes nomanual: "checkTransformerAlreadyExists allTrans (t_Schema (es (gl_table (ge_to r))))
         (t_Name (es (gl_table (ge_to r)))) (tc_Name (tm_cfg rootTr)) (gl_keys (ge_to r) ! tm_attNum rootTr) = None"
  shows "rootTr \<in> set rts \<Longrightarrow>
         processReference es r C rts allTrans (ws, res) = Ok (ws', res') \<Longrightarrow>
         tm_attNum rootTr < length (gl_keys (ge_to r)) \<and>
         bindsTransformer es (gl_table (ge_to r))
           (inheritedTransformer rootTr (gl_keys (ge_to r) ! tm_attNum rootTr)) res'"
proof (induction rts arbitrary: ws res)
  case Nil
  then show ?case by simp
next
  case (Cons rt rts)
  show ?case
  proof (cases "rt = rootTr")
    case True
    from Cons.prems(2) [unfolded True] show ?thesis
    proof (cases rule: processReference_Cons_OkE)
      case (manual conf)
      then show ?thesis using nomanual by simp
    next
      case added
      from processReference_keeps [OF addTransformer_adds added(3)] added(1)
      show ?thesis by simp
    qed
  next
    case False
    then have mem: "rootTr \<in> set rts" using Cons.prems(1) by simp
    from Cons.prems(2) show ?thesis
    proof (cases rule: processReference_Cons_OkE)
      case (manual conf)
      from Cons.IH [OF mem manual(3)] show ?thesis .
    next
      case added
      from Cons.IH [OF mem added(3)] show ?thesis .
    qed
  qed
qed

lemma dfsEdges_keeps:
  assumes dfs: "\<And>child' res0 ws1 res1. bindsTransformer es child x res0 \<Longrightarrow>
                  dfs child' res0 = Some (Ok (ws1, res1)) \<Longrightarrow> bindsTransformer es child x res1"
  shows "bindsTransformer es child x res \<Longrightarrow>
         dfsEdges dfs es g C rts allTrans chk rs (ws, res) = Some (Ok (ws', res')) \<Longrightarrow>
         bindsTransformer es child x res'"
proof (induction rs arbitrary: ws res)
  case Nil
  then show ?case by simp
next
  case (Cons r rs)
  from Cons.prems(2) show ?case
  proof (cases rule: dfsEdges_Cons_OkE)
    case skip
    from Cons.IH [OF Cons.prems(1) skip(3)] show ?thesis .
  next
    case (go ws1 res1 ws2 res2)
    from Cons.IH [OF dfs [OF processReference_keeps [OF Cons.prems(1) go(2)] go(3)] go(4)]
    show ?thesis .
  qed
qed

lemma buildRefs_keeps:
  "bindsTransformer es child x res \<Longrightarrow>
   buildRefsWithEndToEndDfs depth es tab C rts g allTrans res chk = Some (Ok (ws', res')) \<Longrightarrow>
   bindsTransformer es child x res'"
proof (induction depth arbitrary: tab res chk ws' res')
  case 0
  then show ?case by simp
next
  case (Suc depth)
  from Suc.prems(2) show ?case
  proof (cases rule: buildRefs_Suc_OkE)
    case notfound
    then show ?thesis using Suc.prems(1) by simp
  next
    case (found k)
    show ?thesis
      by (rule dfsEdges_keeps [OF _ Suc.prems(1) found(3)]) (rule Suc.IH)
  qed
qed

lemma dfsEdges_first_level:
  assumes dfs: "\<And>x child' res0 ws1 res1. bindsTransformer es (gl_table (ge_to r)) x res0 \<Longrightarrow>
                  dfs child' res0 = Some (Ok (ws1, res1)) \<Longrightarrow> bindsTransformer es (gl_table (ge_to r)) x res1"
    and nomanual: "checkTransformerAlreadyExists allTrans (t_Schema (es (gl_table (ge_to r))))
         (t_Name (es (gl_table (ge_to r)))) (tc_Name (tm_cfg rootTr)) (gl_keys (ge_to r) ! tm_attNum rootTr) = None"
    and rt: "rootTr \<in> set rts"
  shows "r \<in> set rs \<Longrightarrow>
         dfsEdges dfs es g C rts allTrans False rs (ws, res) = Some (Ok (ws', res')) \<Longrightarrow>
         tm_attNum rootTr < length (gl_keys (ge_to r)) \<and>
         bindsTransformer es (gl_table (ge_to r))
           (inheritedTransformer rootTr (gl_keys (ge_to r) ! tm_attNum rootTr)) res'"
proof (induction rs arbitrary: ws res)
  case Nil
  then show ?case by simp
next
  case (Cons e rs)
  show ?case
  proof (cases "e = r")
    case True
    from Cons.prems(2) [unfolded True] show ?thesis
    proof (cases rule: dfsEdges_Cons_OkE)
      case skip
      then show ?thesis by simp
    next
      case (go ws1 res1 ws2 res2)
      from processReference_adds [OF nomanual rt go(2)]
      have lt: "tm_attNum rootTr < length (gl_keys (ge_to r))"
        and b1: "bindsTransformer es (gl_table (ge_to r))
           (inheritedTransformer rootTr (gl_keys (ge_to r) ! tm_attNum rootTr)) res1" by simp_all
      from dfsEdges_keeps [OF dfs dfs [OF b1 go(3)] go(4)] lt show ?thesis by simp
    qed
  next
    case False
    then have mem: "r \<in> set rs" using Cons.prems(1) by simp
    from Cons.prems(2) show ?thesis
    proof (cases rule: dfsEdges_Cons_OkE)
      case skip
      then show ?thesis by simp
    next
      case (go ws1 res1 ws2 res2)
      from Cons.IH [OF mem go(4)] show ?thesis .
    qed
  qed
qed

lemma map_filter_memI: "x \<in> set xs \<Longrightarrow> f x = Some y \<Longrightarrow> y \<in> set (List.map_filter f xs)"
  by (induction xs) (auto split: option.splits)

lemma collectRootTransformers_mem:
  assumes "tr \<in> set (d_Transformers C)" and "tc_ApplyForReferences tr"
    and "param (tc_Params tr) engineParameterName = ''hash''"
    and "slices_Index (t_PrimaryKey (es T)) (param (tc_Params tr) columnParameterName) = Some i"
  shows "\<lparr>tm_entry = T, tm_columnName = param (tc_Params tr) columnParameterName,
          tm_attNum = i, tm_cfg = tr\<rparr> \<in> set (collectRootTransformers es T C)"
  unfolding collectRootTransformers_def
proof (rule map_filter_memI [OF assms(1)])
  show "(if \<not> tc_ApplyForReferences tr \<or> param (tc_Params tr) engineParameterName \<noteq> ''hash''
             then None
             else
               (case slices_Index (t_PrimaryKey (es T)) (param (tc_Params tr) columnParameterName) of
                  None \<Rightarrow> None
                | Some idx \<Rightarrow>
                    Some \<lparr>tm_entry = T,
                          tm_columnName = param (tc_Params tr) columnParameterName,
                          tm_attNum = idx, tm_cfg = tr\<rparr>))
        = Some \<lparr>tm_entry = T, tm_columnName = param (tc_Params tr) columnParameterName,
          tm_attNum = i, tm_cfg = tr\<rparr>"
    using assms(2-4) by simp
qed

lemma map_of_update_key:
  "k \<in> fst ` set ps \<Longrightarrow>
   map_of (map (\<lambda>(k', v'). if k' = k then (k', v) else (k', v')) ps) k = Some v"
proof (induction ps)
  case Nil
  then show ?case by simp
next
  case (Cons p ps)
  obtain a b where p: "p = (a, b)" by (cases p)
  show ?case
  proof (cases "a = k")
    case True
    then show ?thesis using p by simp
  next
    case False
    then have "k \<in> fst ` set ps" using Cons.prems p by auto
    then show ?thesis using Cons.IH False p by simp
  qed
qed

lemma param_setParam: "param (setParam k v ps) k = v"
proof (cases "k \<in> fst ` set ps")
  case True
  then show ?thesis
    using map_of_update_key [OF True, of v] by (simp add: setParam_def param_def)
next
  case False
  then have "map_of ps k = None" by (simp add: map_of_eq_None_iff)
  then show ?thesis using False by (simp add: setParam_def param_def map_add_def)
qed

lemma inheritedTransformer_column:
  "param (tc_Params (inheritedTransformer rootTr col)) ''column'' = col \<and>
   tc_Name (inheritedTransformer rootTr col) = tc_Name (tm_cfg rootTr) \<and>
   tc_ApplyForReferences (inheritedTransformer rootTr col) = tc_ApplyForReferences (tm_cfg rootTr)"
  by (simp add: inheritedTransformer_def Let_def param_setParam)

lemma dfsEdges_gate_closed:
  "\<forall>r \<in> set rs. isEndToEndPKFK es g (gl_table (ge_from r)) = Ok False \<Longrightarrow>
   dfsEdges dfs es g C rts allTrans True rs (ws, res) = Some (Ok (ws, res))"
  by (induction rs) simp_all

lemma dfsEdges_gate_open:
  "\<forall>r \<in> set rs. isEndToEndPKFK es g (gl_table (ge_from r)) = Ok True \<Longrightarrow>
   dfsEdges dfs es g C rts allTrans True rs (ws, res) = dfsEdges dfs es g C rts allTrans False rs (ws, res)"
proof (induction rs arbitrary: ws res)
  case Nil
  show ?case by simp
next
  case (Cons r rs)
  have ih: "\<And>ws res. dfsEdges dfs es g C rts allTrans True rs (ws, res)
                      = dfsEdges dfs es g C rts allTrans False rs (ws, res)"
    using Cons.IH Cons.prems by simp
  have g: "isEndToEndPKFK es g (gl_table (ge_from r)) = Ok True" using Cons.prems by simp
  show ?case
    by (simp add: g ih cong: outcome.case_cong option.case_cong prod.case_cong)
qed

lemma isEndToEndPKFK_iff:
  assumes "isEndToEndPKFK es g tab = Ok b"
  shows "b \<longleftrightarrow> (\<exists>idx. slices_IndexFunc (g_tables g)
                          (\<lambda>t. t_Name (es t) = t_Name (es tab) \<and> t_Schema (es t) = t_Schema (es tab)) = Some idx \<and>
                  (\<exists>ref \<in> set (g_reversedGraph g ! idx). endToEndEdge es ref))"
  using assms
  by (auto simp: isEndToEndPKFK_def endToEndEdge_def list_ex_iff split: option.splits if_splits)

lemma slices_IndexFunc_cong:
  "(\<And>x. x \<in> set xs \<Longrightarrow> f x = g x) \<Longrightarrow> slices_IndexFunc xs f = slices_IndexFunc xs g"
  by (induction xs) simp_all

lemma slices_IndexFunc_found:
  "\<exists>x \<in> set xs. f x \<Longrightarrow> \<exists>i. slices_IndexFunc xs f = Some i"
  by (induction xs) auto

lemma slices_IndexFunc_None:
  "slices_IndexFunc xs f = None \<Longrightarrow> \<forall>x \<in> set xs. \<not> f x"
  by (induction xs) (auto split: if_splits)

lemma keepsIdentity_refl: "keepsIdentity es es"
  by (simp add: keepsIdentity_def)

lemma keepsIdentity_trans: "keepsIdentity es es1 \<Longrightarrow> keepsIdentity es1 es2 \<Longrightarrow> keepsIdentity es es2"
  by (simp add: keepsIdentity_def)

lemma keepsIdentity_fields:
  assumes "keepsIdentity es es'"
  shows "t_Name (es' p) = t_Name (es p)" "t_Schema (es' p) = t_Schema (es p)"
    "t_Oid (es' p) = t_Oid (es p)" "t_PrimaryKey (es' p) = t_PrimaryKey (es p)"
    "t_RelKind (es' p) = t_RelKind (es p)"
  using assms by (simp_all add: keepsIdentity_def)

lemma findTableIndex_keeps:
  "keepsIdentity es es' \<Longrightarrow> findTableIndex es' g tab = findTableIndex es g tab"
  unfolding findTableIndex_def by (rule slices_IndexFunc_cong) (simp add: keepsIdentity_fields)

lemma collectRootTransformers_keeps:
  assumes "keepsIdentity es es'"
  shows "collectRootTransformers es' T C = collectRootTransformers es T C"
  unfolding collectRootTransformers_def keepsIdentity_fields(4) [OF assms] ..

lemma bindsTransformer_keeps:
  "keepsIdentity es es' \<Longrightarrow> bindsTransformer es' child x res = bindsTransformer es child x res"
  by (simp add: bindsTransformer_def keepsIdentity_fields)

lemma graphHeight_keeps:
  "keepsIdentity es es' \<Longrightarrow> graphHeight es' g h = graphHeight es g h"
  by (simp add: graphHeight_def findTableIndex_keeps)

lemma graphIndexed_keeps:
  "keepsIdentity es es' \<Longrightarrow> graphIndexed es' g = graphIndexed es g"
  by (simp add: graphIndexed_def keepsIdentity_fields)

lemma keysCover_keeps:
  "keepsIdentity es es' \<Longrightarrow> keysCover es' g tables = keysCover es g tables"
  by (simp add: keysCover_def keepsIdentity_fields)

lemma bindsTransformer_mono:
  "bindsTransformer es child x res \<Longrightarrow> set res \<subseteq> set res' \<Longrightarrow> bindsTransformer es child x res'"
  unfolding bindsTransformer_def by blast

lemma processReference_Ok:
  "\<forall>rt \<in> set rts. tm_attNum rt < length (gl_keys (ge_to r)) \<Longrightarrow>
   \<exists>ws' res'. processReference es r C rts allTrans (ws, res) = Ok (ws', res')"
proof (induction rts arbitrary: ws res)
  case Nil
  show ?case by simp
next
  case (Cons rt rts)
  have lt: "tm_attNum rt < length (gl_keys (ge_to r))" using Cons.prems by simp
  have ih: "\<And>ws res. \<exists>ws' res'. processReference es r C rts allTrans (ws, res) = Ok (ws', res')"
    using Cons.IH Cons.prems by simp
  show ?case
  proof (cases "checkTransformerAlreadyExists allTrans (t_Schema (es (gl_table (ge_to r))))
         (t_Name (es (gl_table (ge_to r)))) (tc_Name (tm_cfg rt)) (gl_keys (ge_to r) ! tm_attNum rt)")
    case None
    then show ?thesis using lt ih by (simp add: Let_def)
  next
    case (Some conf)
    then show ?thesis using lt ih by (simp add: Let_def)
  qed
qed

lemma isEndToEndPKFK_Ok:
  assumes "graphIndexed es g" and "rs \<in> set (g_reversedGraph g)" and "r \<in> set rs"
  shows "\<exists>b. isEndToEndPKFK es g (gl_table (ge_from r)) = Ok b"
proof -
  let ?f = "\<lambda>t. t_Name (es t) = t_Name (es (gl_table (ge_from r))) \<and>
                 t_Schema (es t) = t_Schema (es (gl_table (ge_from r)))"
  from assms have "\<exists>t \<in> set (g_tables g). ?f t" unfolding graphIndexed_def by blast
  from slices_IndexFunc_found [OF this] obtain idx
    where idx: "slices_IndexFunc (g_tables g) ?f = Some idx" by blast
  from slices_IndexFunc_Some [OF idx] assms(1) have "idx < length (g_reversedGraph g)"
    unfolding graphIndexed_def by simp
  then show ?thesis using idx by (simp add: isEndToEndPKFK_def)
qed

lemma dfsEdges_Ok:
  assumes gate: "\<forall>r \<in> set rs. \<exists>b. isEndToEndPKFK es g (gl_table (ge_from r)) = Ok b"
    and keys: "\<forall>r \<in> set rs. \<forall>rt \<in> set rts. tm_attNum rt < length (gl_keys (ge_to r))"
    and dfs: "\<forall>r \<in> set rs. \<forall>res0. \<exists>ws1 res1. dfs (gl_table (ge_to r)) res0 = Some (Ok (ws1, res1))"
  shows "\<exists>ws' res'. dfsEdges dfs es g C rts allTrans chk rs (ws, res) = Some (Ok (ws', res'))"
  using assms
proof (induction rs arbitrary: ws res)
  case Nil
  show ?case by simp
next
  case (Cons r rs)
  have ih: "\<And>ws res. \<exists>ws' res'. dfsEdges dfs es g C rts allTrans chk rs (ws, res) = Some (Ok (ws', res'))"
    using Cons.IH Cons.prems by simp
  obtain b where b: "isEndToEndPKFK es g (gl_table (ge_from r)) = Ok b" using Cons.prems(1) by auto
  obtain ws1 res1 where pr: "processReference es r C rts allTrans (ws, res) = Ok (ws1, res1)"
    using processReference_Ok [of rts r es C allTrans ws res] Cons.prems(2) by auto
  have "\<forall>res0. \<exists>ws1 res1. dfs (gl_table (ge_to r)) res0 = Some (Ok (ws1, res1))"
    using Cons.prems(3) by simp
  then obtain ws2 res2 where d: "dfs (gl_table (ge_to r)) res1 = Some (Ok (ws2, res2))"
    by blast
  show ?case
  proof (cases "chk \<and> \<not> b")
    case True
    then show ?thesis using b ih by simp
  next
    case False
    then have "(if chk then isEndToEndPKFK es g (gl_table (ge_from r)) else Ok True) = Ok True"
      using b by auto
    then show ?thesis using pr d ih by simp
  qed
qed

lemma buildRefs_Ok:
  assumes h: "graphHeight es g h" and ix: "graphIndexed es g"
    and keys: "\<forall>rs \<in> set (g_reversedGraph g). \<forall>r \<in> set rs. \<forall>rt \<in> set rts.
                 tm_attNum rt < length (gl_keys (ge_to r))"
  shows "findTableIndex es g tab = None \<or> (\<exists>k. findTableIndex es g tab = Some k \<and> h k < n) \<Longrightarrow>
         \<exists>ws' res'. buildRefsWithEndToEndDfs (Suc n) es tab C rts g allTrans res chk = Some (Ok (ws', res'))"
proof (induction n arbitrary: tab res chk)
  case 0
  then have "findTableIndex es g tab = None" by simp
  then show ?case by simp
next
  case (Suc n)
  show ?case
  proof (cases "findTableIndex es g tab")
    case None
    then show ?thesis by simp
  next
    case (Some k)
    with Suc.prems have hk: "h k < Suc n" by simp
    from slices_IndexFunc_Some [OF Some [unfolded findTableIndex_def]] ix
    have kl: "k < length (g_reversedGraph g)" unfolding graphIndexed_def by simp
    then have mem: "g_reversedGraph g ! k \<in> set (g_reversedGraph g)" by simp
    have gate: "\<forall>r \<in> set (g_reversedGraph g ! k). \<exists>b. isEndToEndPKFK es g (gl_table (ge_from r)) = Ok b"
      using isEndToEndPKFK_Ok [OF ix mem] by blast
    have ks: "\<forall>r \<in> set (g_reversedGraph g ! k). \<forall>rt \<in> set rts. tm_attNum rt < length (gl_keys (ge_to r))"
      using keys mem by blast
    have rec: "\<forall>r \<in> set (g_reversedGraph g ! k). \<forall>res0. \<exists>ws1 res1.
              buildRefsWithEndToEndDfs (Suc n) es (gl_table (ge_to r)) C rts g allTrans res0 True
                = Some (Ok (ws1, res1))"
    proof (intro ballI allI)
      fix r res0 assume r: "r \<in> set (g_reversedGraph g ! k)"
      have "findTableIndex es g (gl_table (ge_to r)) = None \<or>
            (\<exists>j. findTableIndex es g (gl_table (ge_to r)) = Some j \<and> h j < n)"
      proof (cases "findTableIndex es g (gl_table (ge_to r))")
        case None
        then show ?thesis by simp
      next
        case (Some j)
        with h kl r have "h j < h k" unfolding graphHeight_def by blast
        with hk Some show ?thesis by simp
      qed
      then show "\<exists>ws1 res1. buildRefsWithEndToEndDfs (Suc n) es (gl_table (ge_to r)) C rts g allTrans res0 True
                = Some (Ok (ws1, res1))"
        by (rule Suc.IH)
    qed
    from dfsEdges_Ok [of "g_reversedGraph g ! k" es g rts
          "\<lambda>child res'. buildRefsWithEndToEndDfs (Suc n) es child C rts g allTrans res' True",
          OF gate ks rec]
    show ?thesis using Some kl by simp
  qed
qed

lemma map_filter_memD:
  "y \<in> set (List.map_filter f xs) \<Longrightarrow> \<exists>x \<in> set xs. f x = Some y"
  by (induction xs) (auto split: option.splits)

lemma collectRootTransformers_attNum:
  assumes "rt \<in> set (collectRootTransformers es T C)"
  shows "tm_attNum rt < length (t_PrimaryKey (es T))"
proof -
  from map_filter_memD [OF assms [unfolded collectRootTransformers_def]]
  obtain col i where "slices_Index (t_PrimaryKey (es T)) col = Some i" "tm_attNum rt = i"
    by (auto split: if_splits option.splits)
  then show ?thesis
    using slices_IndexFunc_Some [of "t_PrimaryKey (es T)" "\<lambda>x. x = col" i] by (simp add: slices_Index_def)
qed

lemma getRefTables_Ok:
  assumes h: "graphHeight es g h" and ix: "graphIndexed es g"
    and keys: "keysCover es g tables" and T: "T \<in> set tables" and bound: "\<forall>j. h j \<le> H"
  shows "\<exists>res ws. getRefTables (Suc (Suc H)) es T C g allTrans = Some (Ok (res, ws))"
proof -
  let ?rts = "collectRootTransformers es T C"
  have ks: "\<forall>rs \<in> set (g_reversedGraph g). \<forall>r \<in> set rs. \<forall>rt \<in> set ?rts.
                 tm_attNum rt < length (gl_keys (ge_to r))"
  proof (intro ballI)
    fix rs r rt assume a: "rs \<in> set (g_reversedGraph g)" "r \<in> set rs" "rt \<in> set ?rts"
    have "tm_attNum rt < length (t_PrimaryKey (es T))" by (rule collectRootTransformers_attNum [OF a(3)])
    moreover have "length (t_PrimaryKey (es T)) \<le> length (gl_keys (ge_to r))"
      using keys T a(1,2) unfolding keysCover_def by blast
    ultimately show "tm_attNum rt < length (gl_keys (ge_to r))" by simp
  qed
  have "findTableIndex es g T = None \<or> (\<exists>k. findTableIndex es g T = Some k \<and> h k < Suc H)"
    using bound by (cases "findTableIndex es g T") (auto simp: less_Suc_eq_le)
  from buildRefs_Ok [OF h ix ks this, of C allTrans "[]" False]
  obtain ws' res' where
    "buildRefsWithEndToEndDfs (Suc (Suc H)) es T C ?rts g allTrans [] False = Some (Ok (ws', res'))"
    by blast
  then show ?thesis by (simp add: getRefTables_def Let_def)
qed

lemma getRefTables_binds:
  assumes tr: "tr \<in> set (d_Transformers C)" "tc_ApplyForReferences tr"
      "param (tc_Params tr) engineParameterName = ''hash''"
    and pk: "slices_Index (t_PrimaryKey (es T)) (param (tc_Params tr) columnParameterName) = Some i"
    and idx: "findTableIndex es g T = Some k"
    and r: "r \<in> set (g_reversedGraph g ! k)"
    and nomanual: "checkTransformerAlreadyExists allTrans (t_Schema (es (gl_table (ge_to r))))
         (t_Name (es (gl_table (ge_to r)))) (tc_Name tr) (gl_keys (ge_to r) ! i) = None"
    and run: "getRefTables depth es T C g allTrans = Some (Ok (res, ws))"
  shows "i < length (gl_keys (ge_to r)) \<and>
         bindsTransformer es (gl_table (ge_to r))
           (inheritedTransformer
              \<lparr>tm_entry = T, tm_columnName = param (tc_Params tr) columnParameterName,
               tm_attNum = i, tm_cfg = tr\<rparr> (gl_keys (ge_to r) ! i)) res"
proof -
  let ?rt = "\<lparr>tm_entry = T, tm_columnName = param (tc_Params tr) columnParameterName,
          tm_attNum = i, tm_cfg = tr\<rparr>"
  let ?rts = "collectRootTransformers es T C"
  have rt: "?rt \<in> set ?rts" by (rule collectRootTransformers_mem [where es = es and T = T, OF tr pk])
  have nm: "checkTransformerAlreadyExists allTrans (t_Schema (es (gl_table (ge_to r))))
         (t_Name (es (gl_table (ge_to r)))) (tc_Name (tm_cfg ?rt)) (gl_keys (ge_to r) ! tm_attNum ?rt) = None"
    using nomanual by simp
  from run have run': "buildRefsWithEndToEndDfs depth es T C ?rts g allTrans [] False = Some (Ok (ws, res))"
    by (simp add: getRefTables_def Let_def split: option.splits outcome.splits prod.splits)
  then obtain d where d: "depth = Suc d" by (cases depth) simp_all
  from run' [unfolded d] show ?thesis
  proof (cases rule: buildRefs_Suc_OkE)
    case notfound
    then show ?thesis using idx by simp
  next
    case (found k')
    then have k': "k' = k" using idx by simp
    have "tm_attNum ?rt < length (gl_keys (ge_to r)) \<and>
       bindsTransformer es (gl_table (ge_to r))
         (inheritedTransformer ?rt (gl_keys (ge_to r) ! tm_attNum ?rt)) res"
      by (rule dfsEdges_first_level [OF _ nm rt r found(3) [unfolded k']]) (rule buildRefs_keeps)
    then show ?thesis by simp
  qed
qed

subsection \<open>Partition expansion and the loop over the configured tables\<close>

lemma keepsIdentity_step: "keepsIdentity es (es(e := asPartitionOf (es p) (es e)))"
  by (simp add: keepsIdentity_def asPartitionOf_def)

lemma partitionEntries_keeps: "keepsIdentity es (partitionEntries parent tables idxs es)"
proof (induction idxs arbitrary: es)
  case Nil
  show ?case by (simp add: partitionEntries_def keepsIdentity_refl)
next
  case (Cons idx idxs)
  let ?es1 = "es(tables ! idx := asPartitionOf (es parent) (es (tables ! idx)))"
  have "keepsIdentity ?es1 (partitionEntries parent tables idxs ?es1)" by (rule Cons.IH)
  from keepsIdentity_trans [OF keepsIdentity_step this] show ?case
    by (simp add: partitionEntries_def)
qed

lemma partitionBindings_result:
  "partitionBindings tcm tables parts (res, es) =
     (res @ map (\<lambda>idx. \<lparr>tcm_entry = tables ! idx, tcm_config = tcm_config tcm\<rparr>)
              (partitionLookup es tables parts),
      partitionEntries (tcm_entry tcm) tables (partitionLookup es tables parts) es)"
proof (induction parts arbitrary: res es)
  case Nil
  show ?case by (simp add: partitionLookup_def partitionEntries_def)
next
  case (Cons pt parts)
  show ?case
  proof (cases "slices_IndexFunc tables (\<lambda>tab. t_Oid (es tab) = pt)")
    case None
    from Cons.IH [of res es] show ?thesis using None by (simp add: partitionLookup_def)
  next
    case (Some idx)
    let ?e = "tables ! idx"
    let ?es1 = "es(?e := asPartitionOf (es (tcm_entry tcm)) (es ?e))"
    let ?b = "\<lparr>tcm_entry = ?e, tcm_config = tcm_config tcm\<rparr>"
    have k: "keepsIdentity es ?es1" by (rule keepsIdentity_step)
    have lk: "partitionLookup ?es1 tables parts = partitionLookup es tables parts"
      unfolding partitionLookup_def keepsIdentity_fields(3) [OF k] ..
    have lc: "partitionLookup es tables (pt # parts) = idx # partitionLookup es tables parts"
      using Some by (simp add: partitionLookup_def)
    have "partitionBindings tcm tables (pt # parts) (res, es) =
            partitionBindings tcm tables parts (res @ [?b], ?es1)"
      apply (simp only: partitionBindings.simps Some option.case Let_def)
      apply (rule arg_cong [where f = "\<lambda>s. partitionBindings tcm tables parts (res @ [?b], s)"])
      apply (auto simp: asPartitionOf_def fun_eq_iff)
      done
    also have "\<dots> = ((res @ [?b]) @ map (\<lambda>idx. \<lparr>tcm_entry = tables ! idx, tcm_config = tcm_config tcm\<rparr>)
                    (partitionLookup ?es1 tables parts),
                  partitionEntries (tcm_entry tcm) tables (partitionLookup ?es1 tables parts) ?es1)"
      by (rule Cons.IH)
    also have "\<dots> = (res @ map (\<lambda>idx. \<lparr>tcm_entry = tables ! idx, tcm_config = tcm_config tcm\<rparr>)
                    (partitionLookup es tables (pt # parts)),
                  partitionEntries (tcm_entry tcm) tables (partitionLookup es tables (pt # parts)) es)"
      unfolding lk lc by (simp add: partitionEntries_def)
    finally show ?thesis .
  qed
qed

lemma partitionLookup_set:
  "set (partitionLookup es tables parts) =
     {idx. \<exists>pt \<in> set parts. slices_IndexFunc tables (\<lambda>tab. t_Oid (es tab) = pt) = Some idx}"
  unfolding partitionLookup_def by (induction parts) (auto split: option.splits)

lemma bindOrExpand_OkE:
  assumes "bindOrExpand tx cfg tables tcm (res, ws, es) = Ok (res', ws', es')"
  obtains (plain) "t_RelKind (es (tcm_entry tcm)) \<noteq> CHR ''p''" "res' = res @ [tcm]" "ws' = ws" "es' = es"
  | (refused) "t_RelKind (es (tcm_entry tcm)) = CHR ''p''" "\<not> d_ApplyForInherited (tcm_config tcm)"
      "res' = res" "es' = es"
  | (expanded) parts where "t_RelKind (es (tcm_entry tcm)) = CHR ''p''"
      "d_ApplyForInherited (tcm_config tcm)" "tx (t_Oid (es (tcm_entry tcm))) = Inr parts"
      "res' = res @ map (\<lambda>idx. \<lparr>tcm_entry = tables ! idx, tcm_config = tcm_config tcm\<rparr>)
                       (partitionLookup es tables parts)"
      "ws' = ws" "keepsIdentity es es'"
      "es' = partitionEntries (tcm_entry tcm) tables (partitionLookup es tables parts) es"
proof (cases "t_RelKind (es (tcm_entry tcm)) \<noteq> CHR ''p''")
  case True
  then have "res' = res @ [tcm]" "ws' = ws" "es' = es" using assms by (simp_all add: bindOrExpand_def)
  with True show ?thesis by (rule plain)
next
  case False
  then have p: "t_RelKind (es (tcm_entry tcm)) = CHR ''p''" by simp
  show ?thesis
  proof (cases "d_ApplyForInherited (tcm_config tcm)")
    case False
    then have "res' = res" "es' = es" using assms p by (simp_all add: bindOrExpand_def)
    with p False show ?thesis by (rule refused)
  next
    case True
    show ?thesis
    proof (cases "tx (t_Oid (es (tcm_entry tcm)))")
      case (Inl e)
      then show ?thesis using assms p True
        by (simp add: bindOrExpand_def setupConfigForPartitionedTableChildren_def
              findPartitionsOfPartitionedTable_def)
    next
      case (Inr parts)
      have "res' = res @ map (\<lambda>idx. \<lparr>tcm_entry = tables ! idx, tcm_config = tcm_config tcm\<rparr>)
                       (partitionLookup es tables parts)" "ws' = ws"
        and es': "es' = partitionEntries (tcm_entry tcm) tables (partitionLookup es tables parts) es"
        using assms p True Inr
        by (simp_all add: bindOrExpand_def setupConfigForPartitionedTableChildren_def
              findPartitionsOfPartitionedTable_def partitionBindings_result)
      moreover have "keepsIdentity es es'" unfolding es' by (rule partitionEntries_keeps)
      ultimately show ?thesis using p True Inr es' by (intro expanded [of parts]) simp_all
    qed
  qed
qed

lemma bindOrExpand_Ok:
  assumes "catalogAnswers tx"
  shows "\<exists>res' ws' es'. bindOrExpand tx cfg tables tcm (res, ws, es) = Ok (res', ws', es')"
proof -
  from assms obtain parts where "tx (t_Oid (es (tcm_entry tcm))) = Inr parts"
    unfolding catalogAnswers_def by blast
  then show ?thesis
    by (cases "partitionBindings tcm tables parts ([], es)")
       (simp add: bindOrExpand_def setupConfigForPartitionedTableChildren_def
          findPartitionsOfPartitionedTable_def)
qed

lemma bindOrExpand_keeps:
  "bindOrExpand tx cfg tables tcm (res, ws, es) = Ok (res', ws', es') \<Longrightarrow> keepsIdentity es es'"
  by (erule bindOrExpand_OkE) (simp_all add: keepsIdentity_refl)

lemma bindOrExpand_mono:
  "bindOrExpand tx cfg tables tcm (res, ws, es) = Ok (res', ws', es') \<Longrightarrow> set res \<subseteq> set res'"
  by (erule bindOrExpand_OkE) auto

lemma setConfigLoop_Cons_OkE:
  assumes "setConfigLoop depth tx cfg tables g r (tcm # tcms) (res, ws, es) = Some (Ok out)"
  obtains (rejected) ws1 where "hasTransformerWithApplyForReferences tcm"
      "checkApplyForReferenceMetRequirements tcm r = (False, ws1)"
      "setConfigLoop depth tx cfg tables g r tcms (res, ws @ ws1, es) = Some (Ok out)"
  | (walked) refTables warns res1 ws1 es1 where "hasTransformerWithApplyForReferences tcm"
      "fst (checkApplyForReferenceMetRequirements tcm r)"
      "getRefTables depth es (tcm_entry tcm) (tcm_config tcm) g cfg = Some (Ok (refTables, warns))"
      "bindOrExpand tx cfg tables tcm (res @ refTables, ws @ warns, es) = Ok (res1, ws1, es1)"
      "setConfigLoop depth tx cfg tables g r tcms (res1, ws1, es1) = Some (Ok out)"
  | (plain) res1 ws1 es1 where "\<not> hasTransformerWithApplyForReferences tcm"
      "bindOrExpand tx cfg tables tcm (res, ws, es) = Ok (res1, ws1, es1)"
      "setConfigLoop depth tx cfg tables g r tcms (res1, ws1, es1) = Some (Ok out)"
proof (cases "hasTransformerWithApplyForReferences tcm")
  case False
  show ?thesis
  proof (cases "bindOrExpand tx cfg tables tcm (res, ws, es)")
    case (Ok st)
    obtain res1 ws1 es1 where st: "st = (res1, ws1, es1)" by (cases st)
    have "setConfigLoop depth tx cfg tables g r tcms (res1, ws1, es1) = Some (Ok out)"
      using assms False Ok st by simp
    with False Ok [unfolded st] show ?thesis by (rule plain)
  next
    case (Err e)
    then show ?thesis using assms False by simp
  next
    case (Panicked e)
    then show ?thesis using assms False by simp
  qed
next
  case True
  obtain ok cw where chk: "checkApplyForReferenceMetRequirements tcm r = (ok, cw)"
    by (cases "checkApplyForReferenceMetRequirements tcm r")
  show ?thesis
  proof (cases ok)
    case False
    then have "setConfigLoop depth tx cfg tables g r tcms (res, ws @ cw, es) = Some (Ok out)"
      using assms True chk by simp
    moreover have "checkApplyForReferenceMetRequirements tcm r = (False, cw)"
      using chk False by simp
    ultimately show ?thesis using True by (intro rejected [of cw])
  next
    case ok: True
    have pass: "fst (checkApplyForReferenceMetRequirements tcm r)" using chk ok by simp
    show ?thesis
    proof (cases "getRefTables depth es (tcm_entry tcm) (tcm_config tcm) g cfg")
      case None
      then show ?thesis using assms True chk ok by simp
    next
      case (Some o1)
      show ?thesis
      proof (cases o1)
        case (Ok p)
        obtain refTables warns where p: "p = (refTables, warns)" by (cases p)
        have gr: "getRefTables depth es (tcm_entry tcm) (tcm_config tcm) g cfg = Some (Ok (refTables, warns))"
          using Some Ok p by simp
        show ?thesis
        proof (cases "bindOrExpand tx cfg tables tcm (res @ refTables, ws @ warns, es)")
          case (Ok st)
          obtain res1 ws1 es1 where st: "st = (res1, ws1, es1)" by (cases st)
          have "setConfigLoop depth tx cfg tables g r tcms (res1, ws1, es1) = Some (Ok out)"
            using assms True chk ok gr Ok st by simp
          with True pass gr Ok [unfolded st] show ?thesis by (rule walked)
        next
          case (Err e)
          then show ?thesis using assms True chk ok gr by simp
        next
          case (Panicked e)
          then show ?thesis using assms True chk ok gr by simp
        qed
      next
        case (Err e)
        then show ?thesis using assms True chk ok Some by simp
      next
        case (Panicked e)
        then show ?thesis using assms True chk ok Some by simp
      qed
    qed
  qed
qed

lemma setConfigLoop_keeps:
  "setConfigLoop depth tx cfg tables g r tcms (res, ws, es) = Some (Ok (res', ws', es')) \<Longrightarrow>
     keepsIdentity es es' \<and> set res \<subseteq> set res'"
proof (induction tcms arbitrary: res ws es)
  case Nil
  then show ?case by (simp add: keepsIdentity_refl)
next
  case (Cons tcm tcms)
  from Cons.prems show ?case
  proof (cases rule: setConfigLoop_Cons_OkE)
    case (rejected ws1)
    from Cons.IH [OF rejected(3)] show ?thesis .
  next
    case (walked refTables warns res1 ws1 es1)
    from Cons.IH [OF walked(5)] have a: "keepsIdentity es1 es'" "set res1 \<subseteq> set res'" by simp_all
    have "set res \<subseteq> set (res @ refTables)" by simp
    also have "\<dots> \<subseteq> set res1" by (rule bindOrExpand_mono [OF walked(4)])
    finally have "set res \<subseteq> set res'" using a(2) by simp
    then show ?thesis using keepsIdentity_trans [OF bindOrExpand_keeps [OF walked(4)] a(1)] by simp
  next
    case (plain res1 ws1 es1)
    from Cons.IH [OF plain(3)] have a: "keepsIdentity es1 es'" "set res1 \<subseteq> set res'" by simp_all
    have "set res \<subseteq> set res1" by (rule bindOrExpand_mono [OF plain(2)])
    then have "set res \<subseteq> set res'" using a(2) by simp
    then show ?thesis using keepsIdentity_trans [OF bindOrExpand_keeps [OF plain(2)] a(1)] by simp
  qed
qed

lemma setConfigLoop_Ok:
  assumes cat: "catalogAnswers tx"
    and walks: "\<forall>tcm \<in> set tcms0. \<forall>es1. keepsIdentity es0 es1 \<longrightarrow>
        (\<exists>refTables warns. getRefTables depth es1 (tcm_entry tcm) (tcm_config tcm) g cfg
                               = Some (Ok (refTables, warns)))"
  shows "set tcms \<subseteq> set tcms0 \<Longrightarrow> keepsIdentity es0 es \<Longrightarrow>
         \<exists>res' ws' es'. setConfigLoop depth tx cfg tables g r tcms (res, ws, es) = Some (Ok (res', ws', es'))"
proof (induction tcms arbitrary: res ws es)
  case Nil
  show ?case by simp
next
  case (Cons tcm tcms)
  have sub: "set tcms \<subseteq> set tcms0" and mem: "tcm \<in> set tcms0" using Cons.prems(1) by auto
  show ?case
  proof (cases "hasTransformerWithApplyForReferences tcm")
    case False
    from bindOrExpand_Ok [OF cat, where cfg = cfg and tables = tables and tcm = tcm and res = res and ws = ws and es = es] obtain res1 ws1 es1
      where b: "bindOrExpand tx cfg tables tcm (res, ws, es) = Ok (res1, ws1, es1)" by blast
    have k: "keepsIdentity es0 es1"
      by (rule keepsIdentity_trans [OF Cons.prems(2) bindOrExpand_keeps [OF b]])
    from Cons.IH [OF sub k, where res = res1 and ws = ws1] show ?thesis using False b by simp
  next
    case True
    obtain ok cw where chk: "checkApplyForReferenceMetRequirements tcm r = (ok, cw)"
      by (cases "checkApplyForReferenceMetRequirements tcm r")
    show ?thesis
    proof (cases ok)
      case False
      from Cons.IH [OF sub Cons.prems(2), where res = res and ws = "ws @ cw"] show ?thesis using True chk False by simp
    next
      case ok: True
      from walks mem Cons.prems(2) obtain refTables warns where
        gr: "getRefTables depth es (tcm_entry tcm) (tcm_config tcm) g cfg = Some (Ok (refTables, warns))"
        by blast
      from bindOrExpand_Ok [OF cat, where cfg = cfg and tables = tables and tcm = tcm and res = "res @ refTables" and ws = "ws @ warns" and es = es]
      obtain res1 ws1 es1
        where b: "bindOrExpand tx cfg tables tcm (res @ refTables, ws @ warns, es) = Ok (res1, ws1, es1)"
        by blast
      have k: "keepsIdentity es0 es1"
        by (rule keepsIdentity_trans [OF Cons.prems(2) bindOrExpand_keeps [OF b]])
      from Cons.IH [OF sub k, where res = res1 and ws = ws1] show ?thesis using True chk ok gr b by simp
    qed
  qed
qed

lemma findTablesWithTransformers_entries:
  "tcm \<in> set (findTablesWithTransformers es cfg tables) \<Longrightarrow> tcm_entry tcm \<in> set tables"
  by (induction tables) (auto split: option.splits)

lemma findTablesWithTransformers_append:
  "findTablesWithTransformers es cfg (xs @ ys) =
     findTablesWithTransformers es cfg xs @ findTablesWithTransformers es cfg ys"
  by (induction xs) (simp_all split: option.splits)

lemma findTablesWithTransformers_mem:
  "e \<in> set tables \<Longrightarrow> slices_IndexFunc cfg (\<lambda>c. configMatches c (es e)) = Some j \<Longrightarrow>
   \<lparr>tcm_entry = e, tcm_config = cfg ! j\<rparr> \<in> set (findTablesWithTransformers es cfg tables)"
  by (induction tables) (auto split: option.splits)

lemma findTablesWithTransformers_memD:
  "tcm \<in> set (findTablesWithTransformers es cfg tables) \<Longrightarrow>
   \<exists>j. slices_IndexFunc cfg (\<lambda>c. configMatches c (es (tcm_entry tcm))) = Some j \<and>
       tcm_config tcm = cfg ! j"
  by (induction tables) (auto split: option.splits)

lemma findTablesWithTransformers_none:
  "\<forall>t \<in> set tables. \<forall>c \<in> set cfg. \<not> configMatches c (es t) \<Longrightarrow>
   findTablesWithTransformers es cfg tables = []"
proof (induction tables)
  case Nil
  show ?case by simp
next
  case (Cons t tables)
  have "slices_IndexFunc cfg (\<lambda>c. configMatches c (es t)) = None"
  proof (cases "slices_IndexFunc cfg (\<lambda>c. configMatches c (es t))")
    case None
    then show ?thesis .
  next
    case (Some j)
    from slices_IndexFunc_Some [OF Some] Cons.prems show ?thesis by auto
  qed
  then show ?case using Cons by simp
qed

theorem setConfigToEntries_Ok:
  assumes cat: "catalogAnswers tx" and h: "graphHeight es g h" and bound: "\<forall>j. h j \<le> H"
    and ix: "graphIndexed es g" and keys: "keysCover es g tables"
  shows "\<exists>res ws es'. setConfigToEntries (Suc (Suc H)) es tx cfg tables g r = Some (Ok (res, ws, es'))"
proof -
  let ?tcms = "findTablesWithTransformers es cfg tables"
  have walks: "\<forall>tcm \<in> set ?tcms. \<forall>es1. keepsIdentity es es1 \<longrightarrow>
        (\<exists>refTables warns. getRefTables (Suc (Suc H)) es1 (tcm_entry tcm) (tcm_config tcm) g cfg
                               = Some (Ok (refTables, warns)))"
  proof (intro ballI allI impI)
    fix tcm es1 assume t: "tcm \<in> set ?tcms" and k: "keepsIdentity es es1"
    have T: "tcm_entry tcm \<in> set tables" by (rule findTablesWithTransformers_entries [OF t])
    show "\<exists>refTables warns. getRefTables (Suc (Suc H)) es1 (tcm_entry tcm) (tcm_config tcm) g cfg
                               = Some (Ok (refTables, warns))"
      by (rule getRefTables_Ok [OF _ _ _ T bound])
         (simp_all add: graphHeight_keeps [OF k] graphIndexed_keeps [OF k] keysCover_keeps [OF k] h ix keys)
  qed
  from setConfigLoop_Ok [OF cat walks subset_refl keepsIdentity_refl, where tables = tables and r = r and res = "[]" and ws = "[]"]
  show ?thesis by (simp add: setConfigToEntries_def)
qed




lemma setConfigLoop_walked:
  assumes flagged: "hasTransformerWithApplyForReferences tcm"
    and pass: "fst (checkApplyForReferenceMetRequirements tcm r)"
    and Q: "\<And>es1 refTables warns. keepsIdentity es0 es1 \<Longrightarrow>
              getRefTables depth es1 (tcm_entry tcm) (tcm_config tcm) g cfg = Some (Ok (refTables, warns))
              \<Longrightarrow> P refTables"
    and mono: "\<And>res res'. P res \<Longrightarrow> set res \<subseteq> set res' \<Longrightarrow> P res'"
  shows "tcm \<in> set tcms \<Longrightarrow> keepsIdentity es0 es \<Longrightarrow>
         setConfigLoop depth tx cfg tables g r tcms (res, ws, es) = Some (Ok (res', ws', es')) \<Longrightarrow>
         P res'"
proof (induction tcms arbitrary: res ws es)
  case Nil
  then show ?case by simp
next
  case (Cons x tcms)
  show ?case
  proof (cases "x = tcm")
    case True
    from Cons.prems(3) [unfolded True] show ?thesis
    proof (cases rule: setConfigLoop_Cons_OkE)
      case (rejected ws1)
      then show ?thesis using pass by simp
    next
      case (walked refTables warns res1 ws1 es1)
      have "P refTables" by (rule Q [OF Cons.prems(2) walked(3)])
      moreover have "set refTables \<subseteq> set res'"
      proof -
        have "set refTables \<subseteq> set (res @ refTables)" by simp
        also have "\<dots> \<subseteq> set res1" by (rule bindOrExpand_mono [OF walked(4)])
        also have "\<dots> \<subseteq> set res'" using setConfigLoop_keeps [OF walked(5)] by simp
        finally show ?thesis .
      qed
      ultimately show ?thesis by (rule mono)
    next
      case (plain res1 ws1 es1)
      then show ?thesis using flagged by simp
    qed
  next
    case False
    then have mem: "tcm \<in> set tcms" using Cons.prems(1) by simp
    from Cons.prems(3) show ?thesis
    proof (cases rule: setConfigLoop_Cons_OkE)
      case (rejected ws1)
      from Cons.IH [OF mem Cons.prems(2) rejected(3)] show ?thesis .
    next
      case (walked refTables warns res1 ws1 es1)
      have k: "keepsIdentity es0 es1"
        by (rule keepsIdentity_trans [OF Cons.prems(2) bindOrExpand_keeps [OF walked(4)]])
      from Cons.IH [OF mem k walked(5)] show ?thesis .
    next
      case (plain res1 ws1 es1)
      have k: "keepsIdentity es0 es1"
        by (rule keepsIdentity_trans [OF Cons.prems(2) bindOrExpand_keeps [OF plain(2)]])
      from Cons.IH [OF mem k plain(3)] show ?thesis .
    qed
  qed
qed

lemma partitionLookup_keeps:
  assumes "keepsIdentity es es'"
  shows "partitionLookup es' tables parts = partitionLookup es tables parts"
  unfolding partitionLookup_def keepsIdentity_fields(3) [OF assms] ..

lemma partitionLookup_kind:
  assumes "leafPartitions es tx tables" and "tx oid = Inr parts"
    and "idx \<in> set (partitionLookup es tables parts)"
  shows "t_RelKind (es (tables ! idx)) \<noteq> CHR ''p''"
  using assms unfolding leafPartitions_def partitionLookup_set by blast

lemma bindOrExpand_kind:
  assumes leaf: "leafPartitions es0 tx tables" and k: "keepsIdentity es0 es"
    and q: "\<forall>b \<in> set res. t_RelKind (es0 (tcm_entry b)) = CHR ''p'' \<longrightarrow> tcm_entry b \<in> A"
    and run: "bindOrExpand tx cfg tables tcm (res, ws, es) = Ok (res', ws', es')"
  shows "\<forall>b \<in> set res'. t_RelKind (es0 (tcm_entry b)) = CHR ''p'' \<longrightarrow> tcm_entry b \<in> A"
  using run
proof (cases rule: bindOrExpand_OkE)
  case plain
  then show ?thesis using q keepsIdentity_fields(5) [OF k] by auto
next
  case refused
  then show ?thesis using q by simp
next
  case (expanded parts)
  have tx: "tx (t_Oid (es0 (tcm_entry tcm))) = Inr parts"
    using expanded(3) keepsIdentity_fields(3) [OF k] by simp
  show ?thesis
  proof (intro ballI impI)
    fix b assume b: "b \<in> set res'" and p: "t_RelKind (es0 (tcm_entry b)) = CHR ''p''"
    from b consider "b \<in> set res"
      | idx where "idx \<in> set (partitionLookup es tables parts)" "tcm_entry b = tables ! idx"
      using expanded(4) by auto
    then show "tcm_entry b \<in> A"
    proof cases
      case 1
      then show ?thesis using q p by blast
    next
      case 2
      from 2(1) have "idx \<in> set (partitionLookup es0 tables parts)"
        using partitionLookup_keeps [OF k] by simp
      from partitionLookup_kind [OF leaf tx this] p 2(2) show ?thesis by simp
    qed
  qed
qed

lemma setConfigLoop_kind:
  assumes leaf: "leafPartitions es0 tx tables"
  shows "keepsIdentity es0 es \<Longrightarrow>
         \<forall>b \<in> set res. t_RelKind (es0 (tcm_entry b)) = CHR ''p'' \<longrightarrow> tcm_entry b \<in> graphChildren g \<Longrightarrow>
         setConfigLoop depth tx cfg tables g r tcms (res, ws, es) = Some (Ok (res', ws', es')) \<Longrightarrow>
         \<forall>b \<in> set res'. t_RelKind (es0 (tcm_entry b)) = CHR ''p'' \<longrightarrow> tcm_entry b \<in> graphChildren g"
proof (induction tcms arbitrary: res ws es)
  case Nil
  then show ?case by simp
next
  case (Cons tcm tcms)
  from Cons.prems(3) show ?case
  proof (cases rule: setConfigLoop_Cons_OkE)
    case (rejected ws1)
    from Cons.IH [OF Cons.prems(1,2) rejected(3)] show ?thesis .
  next
    case (walked refTables warns res1 ws1 es1)
    have "\<forall>b \<in> set refTables. tcm_entry b \<in> graphChildren g"
      using getRefTables_entries [OF walked(3)] by blast
    then have q: "\<forall>b \<in> set (res @ refTables). t_RelKind (es0 (tcm_entry b)) = CHR ''p'' \<longrightarrow>
                    tcm_entry b \<in> graphChildren g"
      using Cons.prems(2) by auto
    have k: "keepsIdentity es0 es1"
      by (rule keepsIdentity_trans [OF Cons.prems(1) bindOrExpand_keeps [OF walked(4)]])
    from Cons.IH [OF k bindOrExpand_kind [OF leaf Cons.prems(1) q walked(4)] walked(5)]
    show ?thesis .
  next
    case (plain res1 ws1 es1)
    have k: "keepsIdentity es0 es1"
      by (rule keepsIdentity_trans [OF Cons.prems(1) bindOrExpand_keeps [OF plain(2)]])
    from Cons.IH [OF k bindOrExpand_kind [OF leaf Cons.prems(1,2) plain(2)] plain(3)]
    show ?thesis .
  qed
qed

lemma setConfigLoop_expands:
  assumes p: "t_RelKind (es0 (tcm_entry tcm)) = CHR ''p''" and inh: "d_ApplyForInherited (tcm_config tcm)"
    and pass: "\<not> hasTransformerWithApplyForReferences tcm \<or> fst (checkApplyForReferenceMetRequirements tcm r)"
  shows "tcm \<in> set tcms \<Longrightarrow> keepsIdentity es0 es \<Longrightarrow>
         setConfigLoop depth tx cfg tables g r tcms (res, ws, es) = Some (Ok (res', ws', es')) \<Longrightarrow>
         \<exists>parts. tx (t_Oid (es0 (tcm_entry tcm))) = Inr parts \<and>
                 (\<forall>idx \<in> set (partitionLookup es0 tables parts).
                    \<lparr>tcm_entry = tables ! idx, tcm_config = tcm_config tcm\<rparr> \<in> set res')"
proof (induction tcms arbitrary: res ws es)
  case Nil
  then show ?case by simp
next
  case (Cons x tcms)
  show ?case
  proof (cases "x = tcm")
    case False
    then have mem: "tcm \<in> set tcms" using Cons.prems(1) by simp
    from Cons.prems(3) show ?thesis
    proof (cases rule: setConfigLoop_Cons_OkE)
      case (rejected ws1)
      from Cons.IH [OF mem Cons.prems(2) rejected(3)] show ?thesis .
    next
      case (walked refTables warns res1 ws1 es1)
      have k: "keepsIdentity es0 es1"
        by (rule keepsIdentity_trans [OF Cons.prems(2) bindOrExpand_keeps [OF walked(4)]])
      from Cons.IH [OF mem k walked(5)] show ?thesis .
    next
      case (plain res1 ws1 es1)
      have k: "keepsIdentity es0 es1"
        by (rule keepsIdentity_trans [OF Cons.prems(2) bindOrExpand_keeps [OF plain(2)]])
      from Cons.IH [OF mem k plain(3)] show ?thesis .
    qed
  next
    case True
    have expand: "\<And>resa wsa res1 ws1 es1.
        bindOrExpand tx cfg tables tcm (resa, wsa, es) = Ok (res1, ws1, es1) \<Longrightarrow>
        \<exists>parts. tx (t_Oid (es0 (tcm_entry tcm))) = Inr parts \<and>
                (\<forall>idx \<in> set (partitionLookup es0 tables parts).
                    \<lparr>tcm_entry = tables ! idx, tcm_config = tcm_config tcm\<rparr> \<in> set res1)"
    proof -
      fix resa wsa res1 ws1 es1
      assume "bindOrExpand tx cfg tables tcm (resa, wsa, es) = Ok (res1, ws1, es1)"
      then show "\<exists>parts. tx (t_Oid (es0 (tcm_entry tcm))) = Inr parts \<and>
                (\<forall>idx \<in> set (partitionLookup es0 tables parts).
                    \<lparr>tcm_entry = tables ! idx, tcm_config = tcm_config tcm\<rparr> \<in> set res1)"
      proof (cases rule: bindOrExpand_OkE)
        case plain
        then show ?thesis using p keepsIdentity_fields(5) [OF Cons.prems(2)] by simp
      next
        case refused
        then show ?thesis using inh by simp
      next
        case (expanded parts)
        have "tx (t_Oid (es0 (tcm_entry tcm))) = Inr parts"
          using expanded(3) keepsIdentity_fields(3) [OF Cons.prems(2)] by simp
        moreover have "\<forall>idx \<in> set (partitionLookup es0 tables parts).
                    \<lparr>tcm_entry = tables ! idx, tcm_config = tcm_config tcm\<rparr> \<in> set res1"
          using expanded(4) partitionLookup_keeps [OF Cons.prems(2)] by auto
        ultimately show ?thesis by blast
      qed
    qed
    from Cons.prems(3) [unfolded True] show ?thesis
    proof (cases rule: setConfigLoop_Cons_OkE)
      case (rejected ws1)
      then show ?thesis using pass by simp
    next
      case (walked refTables warns res1 ws1 es1)
      from expand [OF walked(4)] obtain parts where
        a: "tx (t_Oid (es0 (tcm_entry tcm))) = Inr parts"
           "\<forall>idx \<in> set (partitionLookup es0 tables parts).
                    \<lparr>tcm_entry = tables ! idx, tcm_config = tcm_config tcm\<rparr> \<in> set res1"
        by blast
      moreover have "set res1 \<subseteq> set res'" using setConfigLoop_keeps [OF walked(5)] by simp
      ultimately show ?thesis by blast
    next
      case (plain res1 ws1 es1)
      from expand [OF plain(2)] obtain parts where
        a: "tx (t_Oid (es0 (tcm_entry tcm))) = Inr parts"
           "\<forall>idx \<in> set (partitionLookup es0 tables parts).
                    \<lparr>tcm_entry = tables ! idx, tcm_config = tcm_config tcm\<rparr> \<in> set res1"
        by blast
      moreover have "set res1 \<subseteq> set res'" using setConfigLoop_keeps [OF plain(3)] by simp
      ultimately show ?thesis by blast
    qed
  qed
qed

subsection \<open>The registry check, reference propagation and partition expansion\<close>








lemma returned_OkD:
  assumes "returned out = Some (Ok (res, ws))"
  shows "\<exists>es'. out = Some (Ok (res, ws, es'))"
proof (cases out)
  case None
  then show ?thesis using assms by (simp add: returned_def)
next
  case (Some o1)
  show ?thesis
  proof (cases o1)
    case (Ok st)
    obtain a b c where "st = (a, b, c)" by (cases st)
    then show ?thesis using assms Some Ok by (simp add: returned_def)
  next
    case (Err x)
    then show ?thesis using assms Some by (simp add: returned_def)
  next
    case (Panicked p)
    then show ?thesis using assms Some by (simp add: returned_def)
  qed
qed

text \<open>
  Claim C3, as the code has it.  Let a table \<open>e\<close> in scope have the configuration
  \<open>cfg ! j\<close>, whose registry check passes, and let \<open>tr\<close> be a transformer of it with
  \<open>apply_for_references\<close>, whose \<open>engine\<close> parameter is \<open>hash\<close> and whose column is the
  primary-key column of \<open>e\<close> at position \<open>i\<close>; let \<open>edge\<close> be an edge of the reversed
  graph at \<open>e\<close>, and let the configuration have no transformer of that name on the child
  column \<open>gl_keys (ge_to edge) ! i\<close>.  Then whenever \<open>setConfigToEntries\<close> returns
  bindings, the keys of the edge cover the position \<open>i\<close> and the bindings have one for the
  child table carrying the clone of \<open>tr\<close>.  \<open>setConfigToEntries\<close> does return bindings
  when the catalog answers, the reversed graph has a height and a list of edges for each
  of its tables, and the keys of its edges cover the primary keys of the tables in scope.
  The clone has the name of \<open>tr\<close> and the child-side column as its \<open>column\<close> parameter.
\<close>

theorem reference_clone_emitted:
  assumes e: "e \<in> set tables"
    and cfgj: "slices_IndexFunc cfg (\<lambda>c. configMatches c (es e)) = Some j"
    and pass: "fst (checkApplyForReferenceMetRequirements \<lparr>tcm_entry = e, tcm_config = cfg ! j\<rparr> r)"
    and tr: "tr \<in> set (d_Transformers (cfg ! j))" "tc_ApplyForReferences tr"
      "param (tc_Params tr) engineParameterName = ''hash''"
    and pk: "slices_Index (t_PrimaryKey (es e)) (param (tc_Params tr) columnParameterName) = Some i"
    and idx: "findTableIndex es g e = Some k"
    and edge: "edge \<in> set (g_reversedGraph g ! k)"
    and nomanual: "checkTransformerAlreadyExists cfg (t_Schema (es (gl_table (ge_to edge))))
         (t_Name (es (gl_table (ge_to edge)))) (tc_Name tr) (gl_keys (ge_to edge) ! i) = None"
    and clone: "clone = inheritedTransformer
         \<lparr>tm_entry = e, tm_columnName = param (tc_Params tr) columnParameterName,
          tm_attNum = i, tm_cfg = tr\<rparr> (gl_keys (ge_to edge) ! i)"
  shows "(\<forall>res ws es'. setConfigToEntries depth es tx cfg tables g r = Some (Ok (res, ws, es')) \<longrightarrow>
            i < length (gl_keys (ge_to edge)) \<and> bindsTransformer es (gl_table (ge_to edge)) clone res) \<and>
         (catalogAnswers tx \<and> graphHeight es g h \<and> (\<forall>n. h n \<le> H) \<and> graphIndexed es g \<and>
          keysCover es g tables \<longrightarrow>
            (\<exists>res ws es'. setConfigToEntries (Suc (Suc H)) es tx cfg tables g r = Some (Ok (res, ws, es')))) \<and>
         param (tc_Params clone) ''column'' = gl_keys (ge_to edge) ! i \<and>
         tc_Name clone = tc_Name tr"
proof -
  let ?tcm = "\<lparr>tcm_entry = e, tcm_config = cfg ! j\<rparr>"
  let ?rt = "\<lparr>tm_entry = e, tm_columnName = param (tc_Params tr) columnParameterName,
          tm_attNum = i, tm_cfg = tr\<rparr>"
  let ?P = "\<lambda>res. i < length (gl_keys (ge_to edge)) \<and> bindsTransformer es (gl_table (ge_to edge)) clone res"
  have mem: "?tcm \<in> set (findTablesWithTransformers es cfg tables)"
    by (rule findTablesWithTransformers_mem [where es = es and e = e, OF e cfgj])
  have has: "hasTransformerWithApplyForReferences ?tcm"
    using tr(1,2) by (auto simp: hasTransformerWithApplyForReferences_def list_ex_iff)
  have Q: "\<And>es1 refTables warns. keepsIdentity es es1 \<Longrightarrow>
              getRefTables depth es1 (tcm_entry ?tcm) (tcm_config ?tcm) g cfg = Some (Ok (refTables, warns))
              \<Longrightarrow> ?P refTables"
  proof -
    fix es1 refTables warns
    assume k: "keepsIdentity es es1"
      and run: "getRefTables depth es1 (tcm_entry ?tcm) (tcm_config ?tcm) g cfg = Some (Ok (refTables, warns))"
    have pk1: "slices_Index (t_PrimaryKey (es1 e)) (param (tc_Params tr) columnParameterName) = Some i"
      using pk keepsIdentity_fields(4) [OF k] by simp
    have idx1: "findTableIndex es1 g e = Some k" using idx findTableIndex_keeps [OF k] by simp
    have nm1: "checkTransformerAlreadyExists cfg (t_Schema (es1 (gl_table (ge_to edge))))
         (t_Name (es1 (gl_table (ge_to edge)))) (tc_Name tr) (gl_keys (ge_to edge) ! i) = None"
      using nomanual keepsIdentity_fields(1,2) [OF k] by simp
    have run1: "getRefTables depth es1 e (cfg ! j) g cfg = Some (Ok (refTables, warns))"
      using run by simp
    from getRefTables_binds [where es = es1 and T = e, OF tr pk1 idx1 edge nm1 run1]
    show "?P refTables" unfolding clone bindsTransformer_keeps [OF k] .
  qed
  have mono: "\<And>res res'. ?P res \<Longrightarrow> set res \<subseteq> set res' \<Longrightarrow> ?P res'"
    using bindsTransformer_mono by blast
  have a: "\<forall>res ws es'. setConfigToEntries depth es tx cfg tables g r = Some (Ok (res, ws, es')) \<longrightarrow>
            ?P res"
  proof (intro allI impI)
    fix res ws es'
    assume "setConfigToEntries depth es tx cfg tables g r = Some (Ok (res, ws, es'))"
    then have run: "setConfigLoop depth tx cfg tables g r (findTablesWithTransformers es cfg tables)
        ([], [], es) = Some (Ok (res, ws, es'))" by (simp add: setConfigToEntries_def)
    show "?P res"
      by (rule setConfigLoop_walked [where P = ?P and tcm = ?tcm and es0 = es,
            OF has pass Q mono mem keepsIdentity_refl run])
  qed
  have b: "catalogAnswers tx \<and> graphHeight es g h \<and> (\<forall>n. h n \<le> H) \<and> graphIndexed es g \<and>
          keysCover es g tables \<longrightarrow>
            (\<exists>res ws es'. setConfigToEntries (Suc (Suc H)) es tx cfg tables g r = Some (Ok (res, ws, es')))"
    using setConfigToEntries_Ok [of tx es g h H tables cfg r] by blast
  have c: "param (tc_Params clone) ''column'' = gl_keys (ge_to edge) ! i \<and> tc_Name clone = tc_Name tr"
    unfolding clone using inheritedTransformer_column [of ?rt "gl_keys (ge_to edge) ! i"] by simp
  show ?thesis by (rule conjI [OF a conjI [OF b c]])
qed

lemma graphHeight_graphShop: "graphHeight entriesShop graphShop heightShop"
  unfolding graphHeight_def
proof (intro allI impI ballI)
  fix k r j
  assume k: "k < length (g_reversedGraph graphShop)"
    and r: "r \<in> set (g_reversedGraph graphShop ! k)"
    and j: "findTableIndex entriesShop graphShop (gl_table (ge_to r)) = Some j"
  from k have "k = 0 \<or> k = 1 \<or> k = 2 \<or> k = 3 \<or> k = 4" by (auto simp: graphShop_def)
  then consider (a) "k = 0" "r = mkEdge 1 pUsers [''id''] pOrders [''user_id'']"
    | (b) "k = 0" "r = mkEdge 3 pUsers [''id''] pComments [''user_id'']"
    | (c) "k = 1" "r = mkEdge 2 pOrders [''id''] pOrderItems [''order_id'']"
    | (d) "k = 3" "r = mkEdge 5 pComments [''id''] pReplies [''comment_id'']"
    using r by (auto simp: graphShop_def)
  then show "heightShop j < heightShop k"
  proof cases
    case a
    have "findTableIndex entriesShop graphShop pOrders = Some 1" by code_simp
    then show ?thesis using a j by (simp add: mkEdge_def heightShop_def)
  next
    case b
    have "findTableIndex entriesShop graphShop pComments = Some 3" by code_simp
    then show ?thesis using b j by (simp add: mkEdge_def heightShop_def)
  next
    case c
    have "findTableIndex entriesShop graphShop pOrderItems = Some 2" by code_simp
    then show ?thesis using c j by (simp add: mkEdge_def heightShop_def)
  next
    case d
    have "findTableIndex entriesShop graphShop pReplies = Some 4" by code_simp
    then show ?thesis using d j by (simp add: mkEdge_def heightShop_def)
  qed
qed

lemma graphShop_edges:
  "rs \<in> set (g_reversedGraph graphShop) \<Longrightarrow> r \<in> set rs \<Longrightarrow>
   r \<in> {mkEdge 1 pUsers [''id''] pOrders [''user_id''], mkEdge 3 pUsers [''id''] pComments [''user_id''],
        mkEdge 2 pOrders [''id''] pOrderItems [''order_id''],
        mkEdge 5 pComments [''id''] pReplies [''comment_id'']}"
  by (auto simp: graphShop_def)

lemma graphIndexed_graphShop: "graphIndexed entriesShop graphShop"
  unfolding graphIndexed_def
proof (intro conjI ballI)
  show "length (g_reversedGraph graphShop) = length (g_tables graphShop)" by (simp add: graphShop_def)
next
  fix rs r assume "rs \<in> set (g_reversedGraph graphShop)" "r \<in> set rs"
  from graphShop_edges [OF this] have "gl_table (ge_from r) \<in> set (g_tables graphShop)"
    by (auto simp: mkEdge_def graphShop_def)
  then show "\<exists>t \<in> set (g_tables graphShop).
        t_Name (entriesShop t) = t_Name (entriesShop (gl_table (ge_from r))) \<and>
        t_Schema (entriesShop t) = t_Schema (entriesShop (gl_table (ge_from r)))" by blast
qed

lemma keysCover_graphShop: "keysCover entriesShop graphShop [pUsers, pOrders, pOrderItems, pComments, pReplies]"
  unfolding keysCover_def
proof (intro ballI)
  fix e rs r
  assume e: "e \<in> set [pUsers, pOrders, pOrderItems, pComments, pReplies]"
    and "rs \<in> set (g_reversedGraph graphShop)" "r \<in> set rs"
  from graphShop_edges [OF this(2,3)] have "length (gl_keys (ge_to r)) = 1" by (auto simp: mkEdge_def)
  moreover have "length (t_PrimaryKey (entriesShop e)) = 1"
  proof -
    have "list_all (\<lambda>e. length (t_PrimaryKey (entriesShop e)) = 1)
            [pUsers, pOrders, pOrderItems, pComments, pReplies]" by code_simp
    then show ?thesis using e unfolding list_all_iff by blast
  qed
  ultimately show "length (t_PrimaryKey (entriesShop e)) \<le> length (gl_keys (ge_to r))" by simp
qed

lemma catalogAnswers_noPartitions: "catalogAnswers noPartitions"
  by (simp add: catalogAnswers_def noPartitions_def)

lemma shop_run:
  "returned (setConfigToEntries 3 entriesShop noPartitions [cfgUsersHash]
               [pUsers, pOrders, pOrderItems, pComments, pReplies] graphShop registryShop) =
     Some (Ok ([refBinding pOrders ''user_id'', refBinding pOrderItems ''order_id'',
                refBinding pComments ''user_id'',
                \<lparr>tcm_entry = pUsers, tcm_config = cfgUsersHash\<rparr>], []))"
  by code_simp

text \<open>The edge \<open>orders.user_id -> users.id\<close> of \<open>graphShop\<close>, with \<open>Hash\<close> on \<open>users.id\<close>.\<close>

theorem reference_clone_emitted_witness:
  "returned (setConfigToEntries 3 entriesShop noPartitions [cfgUsersHash]
               [pUsers, pOrders, pOrderItems, pComments, pReplies] graphShop registryShop) =
     Some (Ok ([refBinding pOrders ''user_id'', refBinding pOrderItems ''order_id'',
                refBinding pComments ''user_id'',
                \<lparr>tcm_entry = pUsers, tcm_config = cfgUsersHash\<rparr>], [])) \<and>
   bindsTransformer entriesShop pOrders (hashOn ''user_id'')
     [refBinding pOrders ''user_id'', refBinding pOrderItems ''order_id'',
      refBinding pComments ''user_id'', \<lparr>tcm_entry = pUsers, tcm_config = cfgUsersHash\<rparr>] \<and>
   (\<exists>res ws es'. setConfigToEntries 4 entriesShop noPartitions [cfgUsersHash]
               [pUsers, pOrders, pOrderItems, pComments, pReplies] graphShop registryShop
        = Some (Ok (res, ws, es'))) \<and>
   param (tc_Params (hashOn ''user_id'')) ''column'' = ''user_id''"
proof -
  let ?r = "mkEdge 1 pUsers [''id''] pOrders [''user_id'']"
  let ?tables = "[pUsers, pOrders, pOrderItems, pComments, pReplies]"
  let ?res = "[refBinding pOrders ''user_id'', refBinding pOrderItems ''order_id'',
      refBinding pComments ''user_id'', \<lparr>tcm_entry = pUsers, tcm_config = cfgUsersHash\<rparr>]"
  have h0: "pUsers \<in> set ?tables" by simp
  have h1: "slices_IndexFunc [cfgUsersHash] (\<lambda>c. configMatches c (entriesShop pUsers)) = Some 0"
    by code_simp
  have h2: "fst (checkApplyForReferenceMetRequirements
                   \<lparr>tcm_entry = pUsers, tcm_config = [cfgUsersHash] ! 0\<rparr> registryShop)" by code_simp
  have h3: "hashOnId \<in> set (d_Transformers ([cfgUsersHash] ! 0))"
    by (simp add: cfgUsersHash_def mkConfig_def)
  have h4: "tc_ApplyForReferences hashOnId" by (simp add: hashOnId_def)
  have h5: "param (tc_Params hashOnId) engineParameterName = ''hash''" by code_simp
  have h6: "slices_Index (t_PrimaryKey (entriesShop pUsers)) (param (tc_Params hashOnId) columnParameterName)
              = Some 0" by code_simp
  have h7: "findTableIndex entriesShop graphShop pUsers = Some 0" by code_simp
  have h8: "?r \<in> set (g_reversedGraph graphShop ! 0)" by (simp add: graphShop_def)
  have h9: "checkTransformerAlreadyExists [cfgUsersHash] (t_Schema (entriesShop (gl_table (ge_to ?r))))
         (t_Name (entriesShop (gl_table (ge_to ?r)))) (tc_Name hashOnId) (gl_keys (ge_to ?r) ! 0) = None"
    by code_simp
  have h10: "hashOn ''user_id'' = inheritedTransformer
         \<lparr>tm_entry = pUsers, tm_columnName = param (tc_Params hashOnId) columnParameterName,
          tm_attNum = 0, tm_cfg = hashOnId\<rparr> (gl_keys (ge_to ?r) ! 0)"
    by code_simp
  have hb: "\<forall>n. heightShop n \<le> 2" by (simp add: heightShop_def)
  note t = reference_clone_emitted [where e = pUsers and tables = ?tables and cfg = "[cfgUsersHash]"
      and es = entriesShop and j = 0 and r = registryShop and tr = hashOnId and i = 0
      and g = graphShop and k = 0 and edge = ?r and clone = "hashOn ''user_id''" and depth = 3
      and tx = noPartitions and h = heightShop and H = 2,
      OF h0 h1 h2 h3 h4 h5 h6 h7 h8 h9 h10]
  from returned_OkD [OF shop_run] obtain es' where
    run: "setConfigToEntries 3 entriesShop noPartitions [cfgUsersHash] ?tables
      graphShop registryShop = Some (Ok (?res, [], es'))" by blast
  have a: "bindsTransformer entriesShop pOrders (hashOn ''user_id'') ?res"
    using t run by (simp add: mkEdge_def)
  have b: "\<exists>res ws es'. setConfigToEntries 4 entriesShop noPartitions [cfgUsersHash] ?tables
      graphShop registryShop = Some (Ok (res, ws, es'))"
    using t catalogAnswers_noPartitions graphHeight_graphShop hb graphIndexed_graphShop
      keysCover_graphShop by (simp add: numeral_eq_Suc)
  have c: "param (tc_Params (hashOn ''user_id'')) ''column'' = ''user_id''"
    using t by (simp add: mkEdge_def)
  show ?thesis by (rule conjI [OF shop_run conjI [OF a conjI [OF b c]]])
qed

text \<open>
  Claim C3 as stated fails.  \<open>RandomUuid\<close> on \<open>users.id\<close> with \<open>apply_for_references\<close>
  passes the registry checks (it declares \<open>AllowApplyForReferenced\<close> and does not
  require the hash engine), the reversed graph has two edges at \<open>users\<close> whose keys cover
  position 0, and the builder binds \<open>users\<close> alone: \<open>collectRootTransformers\<close> keeps only
  the transformers whose \<open>engine\<close> parameter is \<open>hash\<close>.  And with \<open>Hash\<close> on
  \<open>users.id\<close>, where \<open>orders.user_id\<close> has a configured \<open>Hash\<close> of its own,
  \<open>orders\<close> keeps that transformer and gets no clone.
\<close>

theorem reference_walk_requires_hash_engine:
  "checkApplyForReferenceMetRequirements \<lparr>tcm_entry = pUsers, tcm_config = cfgUsersUuid\<rparr> registryShop
     = (True, []) \<and>
   map_option (\<lambda>td. GetMeta td RequireHashEngineParameter) (registryShop ''RandomUuid'') = Some (Some False) \<and>
   g_reversedGraph graphShop ! 0 =
     [mkEdge 1 pUsers [''id''] pOrders [''user_id''],
      mkEdge 3 pUsers [''id''] pComments [''user_id'']] \<and>
   collectRootTransformers entriesShop pUsers cfgUsersUuid = [] \<and>
   returned (setConfigToEntries 3 entriesShop noPartitions [cfgUsersUuid]
               [pUsers, pOrders, pOrderItems, pComments, pReplies] graphShop registryShop)
     = Some (Ok ([\<lparr>tcm_entry = pUsers, tcm_config = cfgUsersUuid\<rparr>], [])) \<and>
   returned (setConfigToEntries 3 entriesShop noPartitions [cfgUsersHash, cfgOrdersManual]
               [pUsers, pOrders, pOrderItems, pComments, pReplies] graphShop registryShop)
     = Some (Ok ([refBinding pOrderItems ''order_id'', refBinding pComments ''user_id'',
                  \<lparr>tcm_entry = pUsers, tcm_config = cfgUsersHash\<rparr>,
                  \<lparr>tcm_entry = pOrders, tcm_config = cfgOrdersManual\<rparr>], []))"
  by code_simp

text \<open>
  The check beyond the first level, for a table \<open>tab\<close> of the graph whose edges in the
  reversed graph leave \<open>tab\<close>: when \<open>isEndToEndPKFK\<close> holds of \<open>tab\<close> the walk from
  \<open>tab\<close> is the walk without the check, through every edge of \<open>tab\<close>; when it does not
  hold, no edge of \<open>tab\<close> is processed.  It holds exactly when some edge of \<open>tab\<close> is
  end-to-end.
\<close>

lemma end_to_end_gate:
  assumes idx: "findTableIndex es g tab = Some k" "k < length (g_reversedGraph g)"
    and wf: "\<forall>r \<in> set (g_reversedGraph g ! k). gl_table (ge_from r) = tab"
    and gate: "isEndToEndPKFK es g tab = Ok b"
  shows "buildRefsWithEndToEndDfs (Suc d) es tab C rts g allTrans res True =
           (if b then buildRefsWithEndToEndDfs (Suc d) es tab C rts g allTrans res False
            else Some (Ok ([], res))) \<and>
         (b \<longleftrightarrow> (\<exists>idx. slices_IndexFunc (g_tables g)
                           (\<lambda>t. t_Name (es t) = t_Name (es tab) \<and> t_Schema (es t) = t_Schema (es tab)) = Some idx \<and>
                         (\<exists>ref \<in> set (g_reversedGraph g ! idx). endToEndEdge es ref)))"
proof -
  have first: "buildRefsWithEndToEndDfs (Suc d) es tab C rts g allTrans res True =
           (if b then buildRefsWithEndToEndDfs (Suc d) es tab C rts g allTrans res False
            else Some (Ok ([], res)))"
  proof (cases b)
    case True
    have "\<forall>r \<in> set (g_reversedGraph g ! k). isEndToEndPKFK es g (gl_table (ge_from r)) = Ok True"
      using wf gate True by simp
    from dfsEdges_gate_open [OF this] show ?thesis
      using idx True by simp
  next
    case False
    have "\<forall>r \<in> set (g_reversedGraph g ! k). isEndToEndPKFK es g (gl_table (ge_from r)) = Ok False"
      using wf gate False by simp
    from dfsEdges_gate_closed [OF this] show ?thesis
      using idx False by simp
  qed
  show ?thesis using first isEndToEndPKFK_iff [OF gate] by (rule conjI)
qed

text \<open>
  Claim C4.  In \<open>graphNotes\<close> the table \<open>orders\<close> is referenced by \<open>order_items\<close>, whose
  foreign-key column \<open>order_id\<close> is its primary key, and by \<open>order_notes\<close>, whose
  foreign-key column \<open>order_id\<close> is not in its primary key \<open>id\<close>.  With \<open>Hash\<close> on
  \<open>users.id\<close> the walk is at its second level at \<open>orders\<close>: the check
  \<open>isEndToEndPKFK\<close> is made on \<open>orders\<close>, the table that both edges leave, it holds
  because of the edge to \<open>order_items\<close>, and the builder binds \<open>order_notes.order_id\<close>
  as well.  In \<open>graphShop\<close>, where each table has at most one such edge, the builder
  binds \<open>orders.user_id\<close>, \<open>order_items.order_id\<close> and \<open>comments.user_id\<close>, and not
  \<open>replies.comment_id\<close>, \<open>replies\<close> having its own primary key.
\<close>

theorem end_to_end_gate_opens_all_edges:
  "g_reversedGraph graphNotes ! 1 =
     [mkEdge 2 pOrders [''id''] pOrderItems [''order_id''],
      mkEdge 4 pOrders [''id''] pOrderNotes [''order_id'']] \<and>
   t_PrimaryKey (entriesShop pOrderNotes) = [''id''] \<and>
   endToEndEdge entriesShop (mkEdge 4 pOrders [''id''] pOrderNotes [''order_id'']) = False \<and>
   isEndToEndPKFK entriesShop graphNotes pOrders = Ok True \<and>
   returned (setConfigToEntries 3 entriesShop noPartitions [cfgUsersHash]
               [pUsers, pOrders, pOrderItems, pOrderNotes] graphNotes registryShop)
     = Some (Ok ([refBinding pOrders ''user_id'', refBinding pOrderItems ''order_id'',
                  refBinding pOrderNotes ''order_id'',
                  \<lparr>tcm_entry = pUsers, tcm_config = cfgUsersHash\<rparr>], [])) \<and>
   g_reversedGraph graphShop ! 3 = [mkEdge 5 pComments [''id''] pReplies [''comment_id'']] \<and>
   isEndToEndPKFK entriesShop graphShop pComments = Ok False \<and>
   isEndToEndPKFK entriesShop graphShop pOrders = Ok True \<and>
   returned (setConfigToEntries 3 entriesShop noPartitions [cfgUsersHash]
               [pUsers, pOrders, pOrderItems, pComments, pReplies] graphShop registryShop)
     = Some (Ok ([refBinding pOrders ''user_id'', refBinding pOrderItems ''order_id'',
                  refBinding pComments ''user_id'',
                  \<lparr>tcm_entry = pUsers, tcm_config = cfgUsersHash\<rparr>], []))"
  by code_simp

text \<open>
  What partition expansion gives for every configuration, when \<open>setConfigToEntries\<close>
  returns: the entries keep their names, OIDs, keys and kinds; with a lookup of leaf
  partitions, a binding of a table of kind \<open>p\<close> is a binding of a table that the reversed
  graph leads to; and for every configured partitioned parent with \<open>apply_for_inherited\<close>
  that passes the reference checks, every partition in scope has a binding carrying the
  parent's configuration.  For a parent configured alone, without \<open>apply_for_references\<close>,
  the builder returns exactly those bindings, in the order of the lookup, and no warning,
  and leaves the entries of the partitions with the parent recorded on them.
\<close>

lemma partition_expansion:
  assumes run: "setConfigToEntries depth es tx cfg tables g r = Some (Ok (res, ws, es'))"
  shows "keepsIdentity es es' \<and>
         (leafPartitions es tx tables \<longrightarrow>
            (\<forall>b \<in> set res. t_RelKind (es' (tcm_entry b)) = CHR ''p'' \<longrightarrow> tcm_entry b \<in> graphChildren g)) \<and>
         (\<forall>e \<in> set tables. \<forall>j.
            t_RelKind (es e) = CHR ''p'' \<and>
            slices_IndexFunc cfg (\<lambda>c. configMatches c (es e)) = Some j \<and>
            d_ApplyForInherited (cfg ! j) \<and>
            (list_ex tc_ApplyForReferences (d_Transformers (cfg ! j)) \<longrightarrow>
               fst (checkApplyForReferenceMetRequirements \<lparr>tcm_entry = e, tcm_config = cfg ! j\<rparr> r)) \<longrightarrow>
            (\<exists>parts. tx (t_Oid (es e)) = Inr parts \<and>
               (\<forall>idx \<in> set (partitionLookup es tables parts).
                  \<lparr>tcm_entry = tables ! idx, tcm_config = cfg ! j\<rparr> \<in> set res)))"
proof -
  let ?tcms = "findTablesWithTransformers es cfg tables"
  have loop: "setConfigLoop depth tx cfg tables g r ?tcms ([], [], es) = Some (Ok (res, ws, es'))"
    using run by (simp add: setConfigToEntries_def)
  have k: "keepsIdentity es es'" using setConfigLoop_keeps [OF loop] by simp
  have a: "leafPartitions es tx tables \<longrightarrow>
            (\<forall>b \<in> set res. t_RelKind (es' (tcm_entry b)) = CHR ''p'' \<longrightarrow> tcm_entry b \<in> graphChildren g)"
  proof
    assume leaf: "leafPartitions es tx tables"
    have "\<forall>b \<in> set res. t_RelKind (es (tcm_entry b)) = CHR ''p'' \<longrightarrow> tcm_entry b \<in> graphChildren g"
      by (rule setConfigLoop_kind [OF leaf keepsIdentity_refl _ loop]) simp
    then show "\<forall>b \<in> set res. t_RelKind (es' (tcm_entry b)) = CHR ''p'' \<longrightarrow> tcm_entry b \<in> graphChildren g"
      using keepsIdentity_fields(5) [OF k] by simp
  qed
  have b: "\<forall>e \<in> set tables. \<forall>j.
            t_RelKind (es e) = CHR ''p'' \<and>
            slices_IndexFunc cfg (\<lambda>c. configMatches c (es e)) = Some j \<and>
            d_ApplyForInherited (cfg ! j) \<and>
            (list_ex tc_ApplyForReferences (d_Transformers (cfg ! j)) \<longrightarrow>
               fst (checkApplyForReferenceMetRequirements \<lparr>tcm_entry = e, tcm_config = cfg ! j\<rparr> r)) \<longrightarrow>
            (\<exists>parts. tx (t_Oid (es e)) = Inr parts \<and>
               (\<forall>idx \<in> set (partitionLookup es tables parts).
                  \<lparr>tcm_entry = tables ! idx, tcm_config = cfg ! j\<rparr> \<in> set res))"
  proof (intro ballI allI impI)
    fix e j
    assume e: "e \<in> set tables"
      and c: "t_RelKind (es e) = CHR ''p'' \<and>
            slices_IndexFunc cfg (\<lambda>c. configMatches c (es e)) = Some j \<and>
            d_ApplyForInherited (cfg ! j) \<and>
            (list_ex tc_ApplyForReferences (d_Transformers (cfg ! j)) \<longrightarrow>
               fst (checkApplyForReferenceMetRequirements \<lparr>tcm_entry = e, tcm_config = cfg ! j\<rparr> r))"
    let ?tcm = "\<lparr>tcm_entry = e, tcm_config = cfg ! j\<rparr>"
    have mem: "?tcm \<in> set ?tcms"
      using c by (intro findTablesWithTransformers_mem [where es = es and e = e, OF e]) simp
    have p: "t_RelKind (es (tcm_entry ?tcm)) = CHR ''p''" using c by simp
    have inh: "d_ApplyForInherited (tcm_config ?tcm)" using c by simp
    have pass: "\<not> hasTransformerWithApplyForReferences ?tcm \<or>
                fst (checkApplyForReferenceMetRequirements ?tcm r)"
      using c by (auto simp: hasTransformerWithApplyForReferences_def)
    from setConfigLoop_expands [where tcm = ?tcm and ?es0.0 = es, OF p inh pass mem keepsIdentity_refl loop]
    show "\<exists>parts. tx (t_Oid (es e)) = Inr parts \<and>
               (\<forall>idx \<in> set (partitionLookup es tables parts).
                  \<lparr>tcm_entry = tables ! idx, tcm_config = cfg ! j\<rparr> \<in> set res)" by simp
  qed
  show ?thesis by (rule conjI [OF k conjI [OF a b]])
qed

lemma partition_expansion_alone:
  assumes tabs: "tables = tpre @ [e] @ tpost"
    and others: "\<forall>t \<in> set (tpre @ tpost). \<forall>c \<in> set cfg. \<not> configMatches c (es t)"
    and cfgj: "slices_IndexFunc cfg (\<lambda>c. configMatches c (es e)) = Some j"
    and p: "t_RelKind (es e) = CHR ''p''" and inh: "d_ApplyForInherited (cfg ! j)"
    and nofl: "\<not> list_ex tc_ApplyForReferences (d_Transformers (cfg ! j))"
    and tx: "tx (t_Oid (es e)) = Inr parts"
  shows "setConfigToEntries depth es tx cfg tables g r =
           Some (Ok (map (\<lambda>idx. \<lparr>tcm_entry = tables ! idx, tcm_config = cfg ! j\<rparr>)
                       (partitionLookup es tables parts), [],
                     partitionEntries e tables (partitionLookup es tables parts) es))"
proof -
  let ?tcm = "\<lparr>tcm_entry = e, tcm_config = cfg ! j\<rparr>"
  have "findTablesWithTransformers es cfg tpre = []" "findTablesWithTransformers es cfg tpost = []"
    using others by (simp_all add: findTablesWithTransformers_none)
  then have ftw: "findTablesWithTransformers es cfg tables = [?tcm]"
    unfolding tabs findTablesWithTransformers_append using cfgj by simp
  have nh: "\<not> hasTransformerWithApplyForReferences ?tcm"
    using nofl by (simp add: hasTransformerWithApplyForReferences_def)
  have "bindOrExpand tx cfg tables ?tcm ([], [], es) =
          Ok (map (\<lambda>idx. \<lparr>tcm_entry = tables ! idx, tcm_config = cfg ! j\<rparr>)
                       (partitionLookup es tables parts), [],
              partitionEntries e tables (partitionLookup es tables parts) es)"
    using p inh tx
    by (simp add: bindOrExpand_def setupConfigForPartitionedTableChildren_def
          findPartitionsOfPartitionedTable_def partitionBindings_result)
  then show ?thesis unfolding setConfigToEntries_def ftw using nh by simp
qed

text \<open>
  Claim C7.  \<open>users\<close> has \<open>Hash\<close> on \<open>users.id\<close> with \<open>apply_for_references\<close>, and the
  partitioned table \<open>events\<close>, with \<open>events.user_id -> users.id\<close>, is configured with
  \<open>apply_for_inherited\<close>.  The builder binds the two partitions of \<open>events\<close> to the
  configuration of \<open>events\<close> and does not add the binding of the parent to it; but the
  reference walk from \<open>users\<close> has bound \<open>events\<close> itself, a table of kind \<open>p\<close>, to
  the clone of \<open>Hash\<close>, and that binding stays in the list: the bindings of the walk are
  appended as they are.  With \<open>events\<close> configured alone the list has the two partitions
  only, and their entries have the parent recorded on them.
\<close>

theorem partition_parent_bound_by_reference:
  "returned (setConfigToEntries 3 entriesShop catalogEvents [cfgUsersHash, cfgEvents]
               [pUsers, pEvents, pEvents2024, pEvents2025] graphUserEvents registryShop)
     = Some (Ok ([refBinding pEvents ''user_id'',
                  \<lparr>tcm_entry = pUsers, tcm_config = cfgUsersHash\<rparr>,
                  \<lparr>tcm_entry = pEvents2024, tcm_config = cfgEvents\<rparr>,
                  \<lparr>tcm_entry = pEvents2025, tcm_config = cfgEvents\<rparr>], [])) \<and>
   t_RelKind (entriesShop pEvents) = CHR ''p'' \<and>
   d_ApplyForInherited cfgEvents \<and>
   entriesAfter (setConfigToEntries 3 entriesShop catalogEvents [cfgUsersHash, cfgEvents]
               [pUsers, pEvents, pEvents2024, pEvents2025] graphUserEvents registryShop)
       [pEvents, pEvents2024, pEvents2025]
     = [tabEvents, asPartitionOf tabEvents tabEvents2024, asPartitionOf tabEvents tabEvents2025] \<and>
   returned (setConfigToEntries 3 entriesShop catalogEvents [cfgEvents]
               [pEvents, pEvents2024, pEvents2025] graphEvents registryShop)
     = Some (Ok ([\<lparr>tcm_entry = pEvents2024, tcm_config = cfgEvents\<rparr>,
                  \<lparr>tcm_entry = pEvents2025, tcm_config = cfgEvents\<rparr>], [])) \<and>
   entriesAfter (setConfigToEntries 3 entriesShop catalogEvents [cfgEvents]
               [pEvents, pEvents2024, pEvents2025] graphEvents registryShop)
       [pEvents, pEvents2024, pEvents2025]
     = [tabEvents, asPartitionOf tabEvents tabEvents2024, asPartitionOf tabEvents tabEvents2025]"
  by code_simp

end
